theory Spec2Isabelle
  imports Main "HOL-Library.Word" "HOL-Library.Signed_Division" "HOL-Library.Sublist"
begin

section \<open>Dgraph Zero: startup of \<open>run()\<close> (dgraph/cmd/zero/run.go, lines 207-362)\<close>

text \<open>
  The model starts at line 222. Lines 208-220 (Sentry, the version banner, the list of
  TLS-disabled routes) take no branch that ends \<open>run()\<close>, open no listener and start none
  of its goroutines. Go's \<open>int\<close>, \<open>int64\<close>, \<open>uint64\<close> and \<open>time.Duration\<close> are
  64-bit words; a signed comparison reads the word with \<open>sint\<close>, and \<open>%\<close> truncates
  towards zero (\<open>smod\<close>).
\<close>

type_synonym go_int = "64 word"

text \<open>The values \<open>run()\<close> reads from \<open>Zero.Conf\<close> (the flags declared in \<open>init()\<close>).\<close>

record conf =
  c_bindall :: bool
  c_my :: string
  c_port_offset :: go_int
  c_idx :: go_int
  c_replicas :: go_int
  c_peer :: string
  c_wal :: string
  c_rebalance_interval :: go_int
  c_ludicrous_mode :: bool
  c_cache_mb :: go_int
  c_cache_percentage :: string
  c_tls_dir :: string
  c_enterprise_license :: string
  c_compression_level :: go_int
  c_badger_tables :: string
  c_badger_vlog :: string
  c_telemetry :: bool

text \<open>The struct \<open>options\<close> (lines 51-67), without the two TLS fields that no check reads.\<close>

record options =
  bindall :: bool
  myAddr :: string
  portOffset :: go_int
  nodeId :: go_int
  numReplicas :: go_int
  peer :: string
  w :: string
  rebalanceInterval :: go_int
  LudicrousMode :: bool
  totalCache :: go_int
  cachePercentage :: string
  tlsDir :: string

text \<open>
  What the calls that leave run.go answer: each field is the result of one call into the
  packages \<open>x\<close>, \<open>enc\<close>, \<open>net\<close>, \<open>os\<close>, \<open>badger\<close> or of a method defined in another file.
  \<open>fmt_port\<close> is \<open>fmt.Sprintf("localhost:%d", _)\<close>.
\<close>

record env =
  client_tls_err :: bool
  EeBuild :: bool
  PortZeroGrpc :: go_int
  PortZeroHTTP :: go_int
  fmt_port :: "go_int \<Rightarrow> string"
  listen_err :: "string \<Rightarrow> go_int \<Rightarrow> bool"
  cache_percentages :: "string \<Rightarrow> (go_int \<times> go_int) option"
  mkdir_err :: "string \<Rightarrow> bool"
  open_err :: bool
  internal_tls_err :: bool
  server_tls_err :: bool
  node_start_err :: bool

datatype loading_mode = FileIO | LoadToRAM | MemoryMap

datatype compression = ZSTD

text \<open>
  The fields of badger's options that \<open>run()\<close> sets (lines 296-329). \<open>Compression\<close>
  is \<open>None\<close> where the code leaves the default of \<open>LSMOnlyOptions\<close> in place.
\<close>

record kvopts =
  Dir :: string
  SyncWrites :: bool
  Truncate :: bool
  ValueLogFileSize :: go_int
  BlockCacheSize :: go_int
  IndexCacheSize :: go_int
  LoadBloomsOnOpen :: bool
  Compression :: "compression option"
  ZSTDCompressionLevel :: "go_int option"
  TableLoadingMode :: loading_mode
  ValueLogLoadingMode :: loading_mode

text \<open>The fatal exits of \<open>run()\<close>, in the order of the source.\<close>

datatype fatal =
    ClientTLSConfig
  | IdxZero
  | EnterpriseLicenseOSS
  | ReplicasNotOdd
  | RebalanceIntervalNotPositive
  | ListenFailed string
  | CacheSizeNegative
  | CachePercentagesInvalid
  | WalDirFailed
  | InvalidBadgerTables
  | InvalidBadgerVlog
  | WalOpenFailed
  | InternalTLSConfig
  | ServerTLSConfig
  | NodeStartFailed

text \<open>What \<open>run()\<close> has done to the outside when it stops or reaches line 362.\<close>

datatype effect =
    Listen string string go_int
  | MkdirAll string
  | OpenManaged kvopts
  | Go string

datatype outcome = Fatal fatal | Started options

text \<open>
  Modelled from the spec: the exit status of a fatal startup error. \<open>log.Fatalf\<close> is
  \<open>os.Exit(1)\<close> after printing; \<open>x.Check\<close>, \<open>x.Checkf\<close>, \<open>x.Fatalf\<close> and
  \<open>x.AssertTruef\<close> live in package \<open>x\<close>, and the specification gives them the same
  status ("1 on ... fatal startup configuration errors").
\<close>

definition exit_status :: "outcome \<Rightarrow> nat option" where
  "exit_status r = (case r of Fatal _ \<Rightarrow> Some 1 | Started _ \<Rightarrow> None)"

definition read_options :: "conf \<Rightarrow> options" where
  "read_options c =
     \<lparr> bindall = c_bindall c, myAddr = c_my c, portOffset = c_port_offset c,
       nodeId = c_idx c, numReplicas = c_replicas c, peer = c_peer c, w = c_wal c,
       rebalanceInterval = c_rebalance_interval c, LudicrousMode = c_ludicrous_mode c,
       totalCache = c_cache_mb c, cachePercentage = c_cache_percentage c,
       tlsDir = c_tls_dir c \<rparr>"

text \<open>\<open>opts.numReplicas < 0 || opts.numReplicas%2 == 0\<close> (line 253).\<close>

definition replicas_rejected :: "go_int \<Rightarrow> bool" where
  "replicas_rejected n = (sint n < 0 \<or> sint n smod 2 = 0)"

text \<open>\<open>(p * (totalCache << 20)) / 100\<close> on \<open>int64\<close> (lines 291-292).\<close>

definition cache_size :: "go_int \<Rightarrow> go_int \<Rightarrow> go_int" where
  "cache_size p tc = word_of_int (sint (p * push_bit 20 tc) sdiv 100)"

text \<open>The two switches of lines 312-329; \<open>None\<close> is the \<open>default\<close> branch.\<close>

definition table_loading_mode :: "string \<Rightarrow> loading_mode option" where
  "table_loading_mode s =
     (if s = ''mmap'' then Some MemoryMap
      else if s = ''ram'' then Some LoadToRAM
      else if s = ''disk'' then Some FileIO
      else None)"

definition vlog_loading_mode :: "string \<Rightarrow> loading_mode option" where
  "vlog_loading_mode s =
     (if s = ''mmap'' then Some MemoryMap
      else if s = ''disk'' then Some FileIO
      else None)"

definition make_kvopts ::
  "options \<Rightarrow> go_int \<times> go_int \<Rightarrow> go_int \<Rightarrow> loading_mode \<Rightarrow> loading_mode \<Rightarrow> kvopts" where
  "make_kvopts opts cachePercent level tm vm =
     \<lparr> Dir = w opts, SyncWrites = False, Truncate = True,
       ValueLogFileSize = push_bit 20 64,
       BlockCacheSize = cache_size (fst cachePercent) (totalCache opts),
       IndexCacheSize = cache_size (snd cachePercent) (totalCache opts),
       LoadBloomsOnOpen = False,
       Compression = (if 0 < sint level then Some ZSTD else None),
       ZSTDCompressionLevel = (if 0 < sint level then Some level else None),
       TableLoadingMode = tm, ValueLogLoadingMode = vm \<rparr>"

text \<open>
  Lines 332-362, once the store's options are built: open the store, start the value-log
  GC, the gRPC server, the HTTP servers, the Raft node and the telemetry task.
\<close>

definition start_servers :: "conf \<Rightarrow> env \<Rightarrow> options \<Rightarrow> effect list \<Rightarrow> kvopts \<Rightarrow> effect list \<times> outcome" where
  "start_servers c e opts eff kvOpt =
     (if open_err e then (eff, Fatal WalOpenFailed)
      else let eff = eff @ [OpenManaged kvOpt, Go ''RunVlogGC''] in
      if internal_tls_err e then (eff, Fatal InternalTLSConfig)
      else let eff = eff @ [Go ''serveGRPC''] in
      if server_tls_err e then (eff, Fatal ServerTLSConfig)
      else let eff = eff @ [Go ''startListenHttpAndHttps''] in
      if node_start_err e then (eff, Fatal NodeStartFailed)
      else (eff @ (if c_telemetry c then [Go ''periodicallyPostTelemetry''] else []),
            Started opts))"

text \<open>Lines 287-329: the cache sizes, the WAL directory and the store's options.\<close>

definition open_wal :: "conf \<Rightarrow> env \<Rightarrow> options \<Rightarrow> effect list \<Rightarrow> effect list \<times> outcome" where
  "open_wal c e opts eff =
     (if sint (totalCache opts) < 0 then (eff, Fatal CacheSizeNegative)
      else (case cache_percentages e (cachePercentage opts) of
        None \<Rightarrow> (eff, Fatal CachePercentagesInvalid)
      | Some cachePercent \<Rightarrow>
          (if mkdir_err e (w opts) then (eff, Fatal WalDirFailed)
           else (case table_loading_mode (c_badger_tables c) of
             None \<Rightarrow> (eff @ [MkdirAll (w opts)], Fatal InvalidBadgerTables)
           | Some tm \<Rightarrow>
               (case vlog_loading_mode (c_badger_vlog c) of
                  None \<Rightarrow> (eff @ [MkdirAll (w opts)], Fatal InvalidBadgerVlog)
                | Some vm \<Rightarrow>
                    start_servers c e opts (eff @ [MkdirAll (w opts)])
                      (make_kvopts opts cachePercent (c_compression_level c) tm vm))))))"

text \<open>
  \<open>setupListener\<close> (lines 140-144): \<open>net.Listen("tcp", addr:port)\<close>; \<open>None\<close> is its
  error.
\<close>

definition setupListener :: "env \<Rightarrow> string \<Rightarrow> go_int \<Rightarrow> string \<Rightarrow> effect option" where
  "setupListener e addr port kind =
     (if listen_err e addr port then None else Some (Listen kind addr port))"

text \<open>Lines 222-285: the options, their checks and the two listeners.\<close>

definition run_startup :: "conf \<Rightarrow> env \<Rightarrow> effect list \<times> outcome" where
  "run_startup c e =
     (if client_tls_err e then ([], Fatal ClientTLSConfig)
      else let opts = read_options c in
      if nodeId opts = 0 then ([], Fatal IdxZero)
      else if \<not> EeBuild e \<and> c_enterprise_license c \<noteq> [] then ([], Fatal EnterpriseLicenseOSS)
      else if replicas_rejected (numReplicas opts) then ([], Fatal ReplicasNotOdd)
      else if sint (rebalanceInterval opts) \<le> 0 then ([], Fatal RebalanceIntervalNotPositive)
      else let addr = (if bindall opts then ''0.0.0.0'' else ''localhost'');
               opts = (if myAddr opts = [] then opts\<lparr>myAddr := fmt_port e (PortZeroGrpc e + portOffset opts)\<rparr>
                       else opts) in
      (case setupListener e addr (PortZeroGrpc e + portOffset opts) ''grpc'' of
         None \<Rightarrow> ([], Fatal (ListenFailed ''grpc''))
       | Some grpcListener \<Rightarrow>
           (case setupListener e addr (PortZeroHTTP e + portOffset opts) ''http'' of
              None \<Rightarrow> ([grpcListener], Fatal (ListenFailed ''http''))
            | Some httpListener \<Rightarrow> open_wal c e opts [grpcListener, httpListener])))"

text \<open>A default configuration (the defaults of the flags) in which every outside call succeeds.\<close>

definition conf0 :: conf where
  "conf0 = \<lparr> c_bindall = False, c_my = [], c_port_offset = 0, c_idx = 1, c_replicas = 1,
     c_peer = [], c_wal = ''zw'', c_rebalance_interval = 480000000000,
     c_ludicrous_mode = False, c_cache_mb = 0, c_cache_percentage = ''100,0'',
     c_tls_dir = [], c_enterprise_license = [], c_compression_level = 3,
     c_badger_tables = ''mmap'', c_badger_vlog = ''mmap'', c_telemetry = True \<rparr>"

definition env0 :: env where
  "env0 = \<lparr> client_tls_err = False, EeBuild = False, PortZeroGrpc = 5080, PortZeroHTTP = 6080,
     fmt_port = (\<lambda>p. ''localhost:5080''), listen_err = (\<lambda>a p. False),
     cache_percentages = (\<lambda>s. Some (100, 0)), mkdir_err = (\<lambda>d. False), open_err = False,
     internal_tls_err = False, server_tls_err = False, node_start_err = False \<rparr>"


section \<open>The Closer\<close>

text \<open>
  The type \<open>z.Closer\<close> comes from package ristretto/z (imported at line 46); its source
  is not among the files. Sections 3 and 4.1 of the specification describe it, and each
  definition below follows their words.
\<close>

text \<open>
  Modelled from the spec: the Closer's attributes, "a count of registered running units
  (non-negative integer), a one-shot stop requested signal".
\<close>

record closer =
  running :: nat
  stop_requested :: bool

text \<open>
  Modelled from the spec: \<open>New(initialCount)\<close>, a "Closer with that many pre-registered
  running units".
\<close>

definition NewCloser :: "nat \<Rightarrow> closer" where
  "NewCloser initial = \<lparr> running = initial, stop_requested = False \<rparr>"

text \<open>Modelled from the spec: \<open>AddRunning(n)\<close> "increments the running-unit count".\<close>

definition AddRunning :: "nat \<Rightarrow> closer \<Rightarrow> closer" where
  "AddRunning n lc = lc\<lparr>running := running lc + n\<rparr>"

text \<open>
  Modelled from the spec: \<open>Done()\<close> "decrements the running-unit count by one; fails (as a
  programming-error signal, not a recoverable error) if called more times than
  Add/initial count". \<open>None\<close> is that failure.
\<close>

definition Done :: "closer \<Rightarrow> closer option" where
  "Done lc = (if running lc = 0 then None else Some (lc\<lparr>running := running lc - 1\<rparr>))"

text \<open>Modelled from the spec: \<open>Signal()\<close> "idempotently requests stop; does not block".\<close>

definition Signal :: "closer \<Rightarrow> closer" where
  "Signal lc = lc\<lparr>stop_requested := True\<rparr>"

text \<open>
  Modelled from the spec: \<open>HasBeenClosed()\<close> "produces a notification observable by any
  number of listeners, exactly once, when stop is requested".
\<close>

definition HasBeenClosed :: "closer \<Rightarrow> bool" where
  "HasBeenClosed lc = stop_requested lc"

text \<open>
  Modelled from the spec: \<open>Wait()\<close> "blocks the calling thread until the running-unit
  count reaches zero after a stop request". \<open>Wait_returns lc\<close> says that in state \<open>lc\<close>
  a caller of \<open>Wait()\<close> returns. \<open>SignalAndWait()\<close> is \<open>Signal()\<close> followed by
  \<open>Wait()\<close>.
\<close>

definition Wait_returns :: "closer \<Rightarrow> bool" where
  "Wait_returns lc = (stop_requested lc \<and> running lc = 0)"

text \<open>
  The calls that change a Closer, as several tasks issue them one after another. The
  state change of \<open>SignalAndWait()\<close> is that of \<open>Signal()\<close>: its caller then blocks in
  \<open>Wait()\<close>.
\<close>

datatype call = CallAddRunning nat | CallDone | CallSignal | CallSignalAndWait

fun is_signal :: "call \<Rightarrow> bool" where
  "is_signal CallSignal = True"
| "is_signal CallSignalAndWait = True"
| "is_signal _ = False"

fun apply_call :: "call \<Rightarrow> closer \<Rightarrow> closer option" where
  "apply_call (CallAddRunning n) lc = Some (AddRunning n lc)"
| "apply_call CallDone lc = Done lc"
| "apply_call CallSignal lc = Some (Signal lc)"
| "apply_call CallSignalAndWait lc = Some (Signal lc)"

fun run_calls :: "call list \<Rightarrow> closer \<Rightarrow> closer option" where
  "run_calls [] lc = Some lc"
| "run_calls (c # cs) lc = (case apply_call c lc of None \<Rightarrow> None | Some lc' \<Rightarrow> run_calls cs lc')"

text \<open>The units added and released by a sequence of calls.\<close>

fun added :: "call list \<Rightarrow> nat" where
  "added [] = 0"
| "added (CallAddRunning n # cs) = n + added cs"
| "added (_ # cs) = added cs"

fun released :: "call list \<Rightarrow> nat" where
  "released [] = 0"
| "released (CallDone # cs) = Suc (released cs)"
| "released (_ # cs) = released cs"

text \<open>
  The shutdown transitions of a sequence of calls: the calls that turn "stop requested"
  from off to on.
\<close>

fun transitions :: "call list \<Rightarrow> closer \<Rightarrow> nat" where
  "transitions [] lc = 0"
| "transitions (c # cs) lc =
     (case apply_call c lc of
        None \<Rightarrow> 0
      | Some lc' \<Rightarrow> (if stop_requested lc' \<and> \<not> stop_requested lc then 1 else 0) + transitions cs lc')"

section \<open>The two-phase stop of the gRPC server (serveGRPC, lines 184-204)\<close>

text \<open>
  The \<open>select\<close> of lines 197-203 has two cases. Go takes a case that can proceed; when
  both can, it picks one of them at random (\<open>pick\<close>); when none can, the goroutine stays
  blocked (\<open>None\<close>).
\<close>

datatype select_case = CaseDone | CaseTimeout

definition select_stop :: "bool \<Rightarrow> bool \<Rightarrow> select_case \<Rightarrow> select_case option" where
  "select_stop done_ready timer_ready pick =
     (if done_ready \<and> timer_ready then Some pick
      else if done_ready then Some CaseDone
      else if timer_ready then Some CaseTimeout
      else None)"


section \<open>Signals and shutdown: the goroutines of \<open>run()\<close> (lines 364-415)\<close>

text \<open>
  From line 364 on, \<open>run()\<close> is several goroutines: the signal handler (lines 368-383),
  the shutdown goroutine (lines 387-406), the gRPC goroutine started by \<open>serveGRPC\<close>
  (lines 184-204) and \<open>run()\<close> itself (lines 385, 408-415 and its deferred calls of
  lines 334 and 338). Each is a program counter over its statements; one step of the
  process is one statement of one goroutine, or one event from outside (a signal, a timer,
  a task of another file releasing its unit of a Closer). A schedule is a list of such
  steps; every interleaving is a schedule.
\<close>

datatype signal = SIGINT | SIGTERM

datatype status = Alive | Exited nat | Panicked

text \<open>The \<open>glog\<close> lines of the code.\<close>

datatype msg =
    Received signal
  | AbortingThirdTime
  | IgnoringSignal
  | ShuttingDown
  | GrpcServerStopped
  | ForceStopping
  | RunningZero
  | CloserClosed
  | BadgerClosed
  | AllDone
  | SnapshotFailed

text \<open>The handler: \<open>for sig := range sdCh\<close> with its three branches.\<close>

datatype hpc = HRange | HStop | HSignal | HExit | HReturned

text \<open>The shutdown goroutine, one counter value before each statement.\<close>

datatype spc =
    SNotStarted | SAwaitClosed | SCloseSdCh | SCloseHttp | SRaftSignal | SRaftWait
  | SSnapshot | SStoreSignal | SStoreWait | SCloseGrpc | SRemoveCid | SDeferDone | SReturned

text \<open>The gRPC goroutine: \<open>s.Serve(l)\<close>, the start of the stop, the \<open>select\<close>.\<close>

datatype gpc = GServe | GStop | GSelect | GForce | GDeferDone | GReturned

text \<open>\<open>run()\<close> from line 385, then its deferred calls in reverse order of registration.\<close>

datatype mpc =
    MAddRunning | MGo | MWait | MKvClose | MDeferGcSignal | MDeferGcWait | MDeferKvClose
  | MReturned

text \<open>The six teardown steps of lines 395-405, and the record of their begin and end.\<close>

datatype teardown = CloseHTTP | StopRaft | TrySnapshot | StopStore | CloseGRPC | RemoveCidFile

datatype event = Begin teardown | End teardown

record proc =
  status :: status
  notified :: bool
  sdCh :: "signal list"
  sdCh_closed :: bool
  unrelayed :: nat
  h_pc :: hpc
  sigCnt :: nat
  signal_calls :: nat
  zero_closer :: closer
  node_closer :: closer
  store_closer :: closer
  gc_closer :: closer
  s_pc :: spc
  trace :: "event list"
  snapshots :: "bool list"
  http_open :: bool
  grpc_open :: bool
  cid_file :: bool
  g_pc :: gpc
  graceful_done :: bool
  timer_fired :: bool
  force_stops :: nat
  http_tasks :: nat
  m_pc :: mpc
  kv_closes :: nat
  log :: "msg list"

text \<open>
  What the other files fix: the count \<open>Server.Init\<close> gives \<open>st.zero.closer\<close>, the number
  of tasks \<open>startListenHttpAndHttps\<close> starts that release a unit of it, and the count
  \<open>raftwal.Init\<close> gives \<open>store.Closer\<close>.
\<close>

record sysconf =
  zero_units :: nat
  http_units :: nat
  store_units :: nat

text \<open>
  The process after line 383: \<open>signal.Notify\<close> is in force on \<open>sdCh\<close> (capacity 1), the
  handler waits for a signal, the gRPC goroutine is in \<open>s.Serve\<close>, the node's Closer is
  \<open>z.NewCloser(1)\<close> (line 176), the GC's is \<open>z.NewCloser(1)\<close> (line 336).
\<close>

definition init :: "sysconf \<Rightarrow> proc" where
  "init cfg =
     \<lparr> status = Alive, notified = True, sdCh = [], sdCh_closed = False, unrelayed = 0,
       h_pc = HRange, sigCnt = 0, signal_calls = 0,
       zero_closer = NewCloser (zero_units cfg), node_closer = NewCloser 1,
       store_closer = NewCloser (store_units cfg), gc_closer = NewCloser 1,
       s_pc = SNotStarted, trace = [], snapshots = [],
       http_open = True, grpc_open = True, cid_file = True,
       g_pc = GServe, graceful_done = False, timer_fired = False, force_stops = 0,
       http_tasks = http_units cfg, m_pc = MAddRunning, kv_closes = 0, log = [] \<rparr>"

text \<open>
  The operating system delivers SIGINT or SIGTERM. While \<open>signal.Notify\<close> is in force,
  package \<open>os/signal\<close> sends the signal to \<open>sdCh\<close> without blocking: it is dropped when
  the buffer (capacity 1) is full, and a send on a closed channel panics. After
  \<open>signal.Stop(sdCh)\<close> the channel receives no more signals ("unregister the signal
  subscription", section 4.4 of the specification): the signal takes its default
  disposition, which is outside run.go; the model only counts it.
\<close>

definition deliver :: "signal \<Rightarrow> proc \<Rightarrow> proc" where
  "deliver sig s =
     (if notified s then
        (if sdCh_closed s then s\<lparr>status := Panicked\<rparr>
         else if length (sdCh s) < 1 then s\<lparr>sdCh := sdCh s @ [sig]\<rparr>
         else s)
      else s\<lparr>unrelayed := unrelayed s + 1\<rparr>)"

text \<open>Lines 368-383. \<open>None\<close>: the goroutine is blocked or has returned.\<close>

definition handler :: "proc \<Rightarrow> proc option" where
  "handler s =
     (case h_pc s of
        HRange \<Rightarrow>
          (case sdCh s of
             [] \<Rightarrow> if sdCh_closed s then Some (s\<lparr>h_pc := HReturned\<rparr>) else None
           | sig # rest \<Rightarrow>
               let n = sigCnt s + 1 in
               if n = 1 then
                 Some (s\<lparr>sdCh := rest, log := log s @ [Received sig], sigCnt := n, h_pc := HStop\<rparr>)
               else if n = 3 then
                 Some (s\<lparr>sdCh := rest, log := log s @ [Received sig, AbortingThirdTime], sigCnt := n,
                         h_pc := HExit\<rparr>)
               else
                 Some (s\<lparr>sdCh := rest, log := log s @ [Received sig, IgnoringSignal], sigCnt := n\<rparr>))
      | HStop \<Rightarrow> Some (s\<lparr>notified := False, h_pc := HSignal\<rparr>)
      | HSignal \<Rightarrow>
          Some (s\<lparr>zero_closer := Signal (zero_closer s), signal_calls := signal_calls s + 1,
                  h_pc := HRange\<rparr>)
      | HExit \<Rightarrow> Some (s\<lparr>status := Exited 1\<rparr>)
      | HReturned \<Rightarrow> None)"

text \<open>
  Modelled from the spec: \<open>node.trySnapshot\<close> (defined in another file). Section 4.5:
  "failure to snapshot is logged, not fatal". It returns nothing to the caller.
\<close>

definition trySnapshot :: "bool \<Rightarrow> proc \<Rightarrow> proc" where
  "trySnapshot ok s =
     s\<lparr>snapshots := snapshots s @ [ok], log := (if ok then log s else log s @ [SnapshotFailed])\<rparr>"

text \<open>
  Lines 387-406. \<open>ok\<close> is the result of the snapshot, read only at that statement. The
  two \<open>SignalAndWait()\<close> calls are a \<open>Signal()\<close> and then a blocking \<open>Wait()\<close>. Closing
  a closed channel and a \<open>Done()\<close> without a unit panic.
\<close>

definition sequencer :: "bool \<Rightarrow> proc \<Rightarrow> proc option" where
  "sequencer ok s =
     (case s_pc s of
        SNotStarted \<Rightarrow> None
      | SAwaitClosed \<Rightarrow>
          if HasBeenClosed (zero_closer s)
          then Some (s\<lparr>log := log s @ [ShuttingDown], s_pc := SCloseSdCh\<rparr>) else None
      | SCloseSdCh \<Rightarrow>
          if sdCh_closed s then Some (s\<lparr>status := Panicked\<rparr>)
          else Some (s\<lparr>sdCh_closed := True, s_pc := SCloseHttp\<rparr>)
      | SCloseHttp \<Rightarrow>
          Some (s\<lparr>http_open := False, trace := trace s @ [Begin CloseHTTP, End CloseHTTP],
                  s_pc := SRaftSignal\<rparr>)
      | SRaftSignal \<Rightarrow>
          Some (s\<lparr>node_closer := Signal (node_closer s), trace := trace s @ [Begin StopRaft],
                  s_pc := SRaftWait\<rparr>)
      | SRaftWait \<Rightarrow>
          if Wait_returns (node_closer s)
          then Some (s\<lparr>trace := trace s @ [End StopRaft], s_pc := SSnapshot\<rparr>) else None
      | SSnapshot \<Rightarrow>
          Some ((trySnapshot ok s)\<lparr>trace := trace s @ [Begin TrySnapshot, End TrySnapshot],
                  s_pc := SStoreSignal\<rparr>)
      | SStoreSignal \<Rightarrow>
          Some (s\<lparr>store_closer := Signal (store_closer s), trace := trace s @ [Begin StopStore],
                  s_pc := SStoreWait\<rparr>)
      | SStoreWait \<Rightarrow>
          if Wait_returns (store_closer s)
          then Some (s\<lparr>trace := trace s @ [End StopStore], s_pc := SCloseGrpc\<rparr>) else None
      | SCloseGrpc \<Rightarrow>
          Some (s\<lparr>grpc_open := False, trace := trace s @ [Begin CloseGRPC, End CloseGRPC],
                  s_pc := SRemoveCid\<rparr>)
      | SRemoveCid \<Rightarrow>
          Some (s\<lparr>cid_file := False, trace := trace s @ [Begin RemoveCidFile, End RemoveCidFile],
                  s_pc := SDeferDone\<rparr>)
      | SDeferDone \<Rightarrow>
          (case Done (zero_closer s) of
             None \<Rightarrow> Some (s\<lparr>status := Panicked\<rparr>)
           | Some lc \<Rightarrow> Some (s\<lparr>zero_closer := lc, s_pc := SReturned\<rparr>))
      | SReturned \<Rightarrow> None)"

text \<open>
  Lines 184-204. \<open>s.Serve(l)\<close> returns when the listener is closed or fails, which may be
  at any time. Leaving \<open>GStop\<close> starts the goroutine that runs \<open>s.GracefulStop()\<close> and,
  with the \<open>select\<close>, the timer.
\<close>

definition serveGRPC :: "select_case \<Rightarrow> proc \<Rightarrow> proc option" where
  "serveGRPC pick s =
     (case g_pc s of
        GServe \<Rightarrow> Some (s\<lparr>log := log s @ [GrpcServerStopped], g_pc := GStop\<rparr>)
      | GStop \<Rightarrow> Some (s\<lparr>g_pc := GSelect\<rparr>)
      | GSelect \<Rightarrow>
          (case select_stop (graceful_done s) (timer_fired s) pick of
             None \<Rightarrow> None
           | Some CaseDone \<Rightarrow> Some (s\<lparr>g_pc := GDeferDone\<rparr>)
           | Some CaseTimeout \<Rightarrow> Some (s\<lparr>log := log s @ [ForceStopping], g_pc := GForce\<rparr>))
      | GForce \<Rightarrow> Some (s\<lparr>force_stops := force_stops s + 1, g_pc := GDeferDone\<rparr>)
      | GDeferDone \<Rightarrow>
          (case Done (zero_closer s) of
             None \<Rightarrow> Some (s\<lparr>status := Panicked\<rparr>)
           | Some lc \<Rightarrow> Some (s\<lparr>zero_closer := lc, g_pc := GReturned\<rparr>))
      | GReturned \<Rightarrow> None)"

text \<open>Lines 385-415 of \<open>run()\<close>, then the deferred calls of lines 338 and 334.\<close>

definition main :: "proc \<Rightarrow> proc option" where
  "main s =
     (case m_pc s of
        MAddRunning \<Rightarrow> Some (s\<lparr>zero_closer := AddRunning 1 (zero_closer s), m_pc := MGo\<rparr>)
      | MGo \<Rightarrow> Some (s\<lparr>s_pc := SAwaitClosed, log := log s @ [RunningZero], m_pc := MWait\<rparr>)
      | MWait \<Rightarrow>
          if Wait_returns (zero_closer s)
          then Some (s\<lparr>log := log s @ [CloserClosed], m_pc := MKvClose\<rparr>) else None
      | MKvClose \<Rightarrow>
          Some (s\<lparr>kv_closes := kv_closes s + 1, log := log s @ [BadgerClosed, AllDone],
                  m_pc := MDeferGcSignal\<rparr>)
      | MDeferGcSignal \<Rightarrow> Some (s\<lparr>gc_closer := Signal (gc_closer s), m_pc := MDeferGcWait\<rparr>)
      | MDeferGcWait \<Rightarrow>
          if Wait_returns (gc_closer s) then Some (s\<lparr>m_pc := MDeferKvClose\<rparr>) else None
      | MDeferKvClose \<Rightarrow> Some (s\<lparr>kv_closes := kv_closes s + 1, m_pc := MReturned\<rparr>)
      | MReturned \<Rightarrow> None)"

text \<open>
  The tasks of other files that hold a unit of a Closer release it once, at a time of
  their choosing: the HTTP tasks (units of \<open>st.zero.closer\<close>), the node's loop, the
  store's tasks and the value-log GC.
\<close>

definition http_task_done :: "proc \<Rightarrow> proc option" where
  "http_task_done s =
     (if http_tasks s = 0 then None
      else case Done (zero_closer s) of
             None \<Rightarrow> Some (s\<lparr>status := Panicked\<rparr>)
           | Some lc \<Rightarrow> Some (s\<lparr>zero_closer := lc, http_tasks := http_tasks s - 1\<rparr>))"

definition node_done :: "proc \<Rightarrow> proc option" where
  "node_done s = map_option (\<lambda>lc. s\<lparr>node_closer := lc\<rparr>) (Done (node_closer s))"

definition store_done :: "proc \<Rightarrow> proc option" where
  "store_done s = map_option (\<lambda>lc. s\<lparr>store_closer := lc\<rparr>) (Done (store_closer s))"

definition gc_done :: "proc \<Rightarrow> proc option" where
  "gc_done s = map_option (\<lambda>lc. s\<lparr>gc_closer := lc\<rparr>) (Done (gc_closer s))"

text \<open>
  \<open>s.GracefulStop()\<close> returns and \<open>done\<close> is closed; the timer of
  \<open>time.After(timeout)\<close> fires, with \<open>const timeout = 5 * time.Second\<close>. The model
  has no clock: the timeout has elapsed when \<open>TimerFires\<close> has occurred, and the
  graceful stop completed within the timeout when \<open>GracefulStopReturns\<close> occurred
  before it. When the goroutine runs after either event is for the schedule to say.
\<close>

definition graceful_stop_returns :: "proc \<Rightarrow> proc option" where
  "graceful_stop_returns s =
     (if g_pc s \<in> {GServe, GStop} \<or> graceful_done s then None
      else Some (s\<lparr>graceful_done := True\<rparr>))"

definition timer_fires :: "proc \<Rightarrow> proc option" where
  "timer_fires s =
     (if g_pc s \<in> {GServe, GStop} \<or> timer_fired s then None
      else Some (s\<lparr>timer_fired := True\<rparr>))"

datatype action =
    Deliver signal
  | Handler
  | Sequencer bool
  | Grpc select_case
  | Main
  | HttpTaskDone
  | NodeDone
  | StoreDone
  | GcDone
  | GracefulStopReturns
  | TimerFires

text \<open>One step of the process. A process that has exited or panicked takes no step.\<close>

definition step :: "action \<Rightarrow> proc \<Rightarrow> proc option" where
  "step a s =
     (if status s \<noteq> Alive then None
      else case a of
        Deliver sig \<Rightarrow> Some (deliver sig s)
      | Handler \<Rightarrow> handler s
      | Sequencer ok \<Rightarrow> sequencer ok s
      | Grpc pick \<Rightarrow> serveGRPC pick s
      | Main \<Rightarrow> main s
      | HttpTaskDone \<Rightarrow> http_task_done s
      | NodeDone \<Rightarrow> node_done s
      | StoreDone \<Rightarrow> store_done s
      | GcDone \<Rightarrow> gc_done s
      | GracefulStopReturns \<Rightarrow> graceful_stop_returns s
      | TimerFires \<Rightarrow> timer_fires s)"

text \<open>A schedule runs from a state; \<open>None\<close> when one of its steps cannot be taken.\<close>

fun exec :: "action list \<Rightarrow> proc \<Rightarrow> proc option" where
  "exec [] s = Some s"
| "exec (a # as) s = (case step a s of None \<Rightarrow> None | Some s' \<Rightarrow> exec as s')"

text \<open>The order of the teardown, and the part of it done before each statement.\<close>

definition teardown_order :: "event list" where
  "teardown_order =
     [Begin CloseHTTP, End CloseHTTP, Begin StopRaft, End StopRaft,
      Begin TrySnapshot, End TrySnapshot, Begin StopStore, End StopStore,
      Begin CloseGRPC, End CloseGRPC, Begin RemoveCidFile, End RemoveCidFile]"

fun progress :: "spc \<Rightarrow> nat" where
  "progress SNotStarted = 0"
| "progress SAwaitClosed = 0"
| "progress SCloseSdCh = 0"
| "progress SCloseHttp = 0"
| "progress SRaftSignal = 2"
| "progress SRaftWait = 3"
| "progress SSnapshot = 4"
| "progress SStoreSignal = 6"
| "progress SStoreWait = 7"
| "progress SCloseGrpc = 8"
| "progress SRemoveCid = 10"
| "progress SDeferDone = 12"
| "progress SReturned = 12"

text \<open>A configuration as the other files of the repository set it up, for the examples.\<close>

definition sysconf0 :: sysconf where
  "sysconf0 = \<lparr> zero_units = 2, http_units = 1, store_units = 1 \<rparr>"

text \<open>
  A complete run: one SIGINT, the whole teardown with a failed snapshot, a graceful stop of
  the gRPC server, and \<open>run()\<close> to its return.
\<close>

definition schedule0 :: "action list" where
  "schedule0 =
     [Main, Main, Deliver SIGINT, Handler, Handler, Handler,
      Sequencer True, Sequencer True, Sequencer True, Sequencer True, NodeDone, Sequencer True,
      Sequencer False, Sequencer True, StoreDone, Sequencer True, Sequencer True,
      Grpc CaseDone, Grpc CaseDone, Sequencer True, Sequencer True,
      GracefulStopReturns, Grpc CaseDone, Grpc CaseDone, HttpTaskDone, Handler,
      Main, Main, Main, GcDone, Main, Main]"

text \<open>Three signals, each delivered after the handler has dealt with the one before.\<close>

definition three_signals :: "action list" where
  "three_signals = [Deliver SIGINT, Handler, Handler, Handler, Deliver SIGINT, Deliver SIGINT]"

text \<open>
  Two runs of the gRPC stop in which \<open>s.GracefulStop()\<close> returns before the timer fires.
  In the first the goroutine has reached the \<open>select\<close> and \<open>done\<close> is closed. The
  second goes on: the timer fires before the goroutine runs again, the \<open>select\<close> finds
  both cases ready and takes the timeout case.
\<close>

definition drained_first :: "action list" where
  "drained_first = [Grpc CaseDone, Grpc CaseDone, GracefulStopReturns]"

definition late_select :: "action list" where
  "late_select = drained_first @ [TimerFires, Grpc CaseTimeout, Grpc CaseTimeout]"

text \<open>A run in which the timer fires and \<open>s.GracefulStop()\<close> has not returned.\<close>

definition timer_first :: "action list" where
  "timer_first = [Grpc CaseDone, Grpc CaseDone, TimerFires, Grpc CaseDone, Grpc CaseDone]"

text \<open>What the claims about the stop read of a state.\<close>

definition stop_view :: "proc \<Rightarrow> bool \<times> bool \<times> nat \<times> gpc" where
  "stop_view s = (graceful_done s, timer_fired s, force_stops s, g_pc s)"


section \<open>Invariants of the process\<close>

text \<open>The shutdown goroutine exists once \<open>run()\<close> has passed its \<open>go\<close> statement.\<close>

definition inv_pc :: "proc \<Rightarrow> bool" where
  "inv_pc s \<longleftrightarrow> (m_pc s \<in> {MAddRunning, MGo} \<longleftrightarrow> s_pc s = SNotStarted)"

text \<open>
  What the shutdown goroutine has done is fixed by its program counter: the teardown
  record, the snapshot attempts, and the state of the node's and the store's Closer.
\<close>

definition seq_facts :: "spc \<Rightarrow> event list \<Rightarrow> bool list \<Rightarrow> closer \<Rightarrow> closer \<Rightarrow> bool" where
  "seq_facts pc tr sn nc sc \<longleftrightarrow>
     tr = take (progress pc) teardown_order
   \<and> length sn = (if progress pc < 6 then 0 else 1)
   \<and> (stop_requested nc \<longleftrightarrow> 3 \<le> progress pc)
   \<and> (4 \<le> progress pc \<longrightarrow> running nc = 0)
   \<and> (stop_requested sc \<longleftrightarrow> 7 \<le> progress pc)
   \<and> (8 \<le> progress pc \<longrightarrow> running sc = 0)"

definition inv_seq :: "proc \<Rightarrow> bool" where
  "inv_seq s \<longleftrightarrow> seq_facts (s_pc s) (trace s) (snapshots s) (node_closer s) (store_closer s)"

text \<open>The shutdown goroutine passes its first statement only once the stop is requested.\<close>

definition inv_link :: "proc \<Rightarrow> bool" where
  "inv_link s \<longleftrightarrow>
     (s_pc s \<notin> {SNotStarted, SAwaitClosed} \<longrightarrow> stop_requested (zero_closer s))
   \<and> (sdCh_closed s \<longrightarrow> s_pc s \<notin> {SNotStarted, SAwaitClosed, SCloseSdCh})"

fun exited :: "status \<Rightarrow> bool" where
  "exited (Exited n) = True"
| "exited _ = False"

text \<open>The signal counter, the subscription and the requests to the top-level Closer.\<close>

definition sig_facts ::
  "bool \<Rightarrow> signal list \<Rightarrow> hpc \<Rightarrow> nat \<Rightarrow> nat \<Rightarrow> bool \<Rightarrow> bool \<Rightarrow> status \<Rightarrow> bool" where
  "sig_facts nt ch pc cnt calls stop closed st \<longleftrightarrow>
     length ch \<le> 1
   \<and> (nt \<longrightarrow> (pc = HRange \<and> cnt = 0) \<or> (pc = HStop \<and> cnt = 1))
   \<and> (\<not> nt \<longrightarrow> pc \<in> {HSignal, HRange, HReturned} \<and> 1 \<le> cnt \<and> cnt + length ch \<le> 2)
   \<and> calls = (if nt \<or> pc = HSignal then 0 else 1)
   \<and> (stop \<longleftrightarrow> calls = 1)
   \<and> (closed \<longrightarrow> stop)
   \<and> \<not> exited st"

definition inv_sig :: "proc \<Rightarrow> bool" where
  "inv_sig s \<longleftrightarrow>
     sig_facts (notified s) (sdCh s) (h_pc s) (sigCnt s) (signal_calls s)
       (stop_requested (zero_closer s)) (sdCh_closed s) (status s)"

text \<open>The units of the top-level Closer that are still held, and who holds them.\<close>

definition units_held :: "mpc \<Rightarrow> spc \<Rightarrow> gpc \<Rightarrow> nat \<Rightarrow> nat" where
  "units_held mp sp gp ht =
     (if mp = MGo \<or> sp \<notin> {SNotStarted, SReturned} then 1 else 0)
   + (if gp = GReturned then 0 else 1)
   + ht"

definition count_facts :: "sysconf \<Rightarrow> nat \<Rightarrow> mpc \<Rightarrow> spc \<Rightarrow> gpc \<Rightarrow> nat \<Rightarrow> nat \<Rightarrow> bool" where
  "count_facts cfg r mp sp gp ht kc \<longleftrightarrow>
     r + 1 + http_units cfg = units_held mp sp gp ht + zero_units cfg
   \<and> (mp \<in> {MKvClose, MDeferGcSignal, MDeferGcWait, MDeferKvClose, MReturned} \<longrightarrow>
        sp = SReturned \<and> gp = GReturned \<and> ht = 0)
   \<and> (0 < kc \<longrightarrow> mp \<in> {MDeferGcSignal, MDeferGcWait, MDeferKvClose, MReturned})"

definition inv_count :: "sysconf \<Rightarrow> proc \<Rightarrow> bool" where
  "inv_count cfg s \<longleftrightarrow>
     count_facts cfg (running (zero_closer s)) (m_pc s) (s_pc s) (g_pc s) (http_tasks s)
       (kv_closes s)"



text \<open>
  The gRPC goroutine: \<open>s.Stop()\<close> has been called only on the timeout branch of the
  \<open>select\<close>, which logs the forced stop first and is taken only once the timer has fired;
  the other branch is taken only once \<open>done\<close> is closed.
\<close>

definition grpc_facts :: "gpc \<Rightarrow> nat \<Rightarrow> bool \<Rightarrow> bool \<Rightarrow> bool \<Rightarrow> bool" where
  "grpc_facts pc fs tf gd fl \<longleftrightarrow>
     (pc \<in> {GServe, GStop} \<longrightarrow> fs = 0 \<and> \<not> fl \<and> \<not> tf \<and> \<not> gd)
   \<and> (pc = GSelect \<longrightarrow> fs = 0 \<and> \<not> fl)
   \<and> (pc = GForce \<longrightarrow> fs = 0 \<and> fl \<and> tf)
   \<and> (pc \<in> {GDeferDone, GReturned} \<longrightarrow> (if fl then fs = 1 \<and> tf else fs = 0 \<and> gd))"

definition inv_grpc :: "proc \<Rightarrow> bool" where
  "inv_grpc s \<longleftrightarrow>
     grpc_facts (g_pc s) (force_stops s) (timer_fired s) (graceful_done s)
       (ForceStopping \<in> set (log s))"



section \<open>Startup: the fatal checks\<close>

lemma smod2_even: "(k::int) smod 2 = 0 \<longleftrightarrow> even k"
  by (auto simp: signed_modulo_int_def sgn_if elim: evenE oddE)

lemma replicas_rejected_iff: "replicas_rejected n \<longleftrightarrow> sint n < 0 \<or> even (sint n)"
  by (simp add: replicas_rejected_def smod2_even)






lemma start_servers_Started:
  "snd (start_servers c e opts eff kv) = Started o' \<Longrightarrow> o' = opts"
  by (auto simp: start_servers_def Let_def split: if_splits)

text \<open>
  C7. A replica count that is negative or even stops \<open>run()\<close> with a fatal error (exit
  status 1) while its list of effects is still empty: no listener has been opened, no
  directory created, no store opened and no goroutine started.
\<close>

theorem replicas_negative_or_even_aborts:
  assumes "sint (c_replicas c) < 0 \<or> even (sint (c_replicas c))"
  shows "\<exists>f. run_startup c e = ([], Fatal f) \<and> exit_status (Fatal f) = Some 1"
  using assms
  by (simp add: run_startup_def Let_def read_options_def replicas_rejected_iff exit_status_def)

theorem replicas_negative_or_even_aborts_witness:
  "even (sint (c_replicas (conf0\<lparr>c_replicas := 2\<rparr>))) \<and>
   run_startup (conf0\<lparr>c_replicas := 2\<rparr>) env0 = ([], Fatal ReplicasNotOdd) \<and>
   sint (c_replicas (conf0\<lparr>c_replicas := - 3\<rparr>)) < 0 \<and>
   run_startup (conf0\<lparr>c_replicas := - 3\<rparr>) env0 = ([], Fatal ReplicasNotOdd)"
proof -
  have a: "run_startup (conf0\<lparr>c_replicas := 2\<rparr>) env0 = ([], Fatal ReplicasNotOdd)" by code_simp
  have b: "run_startup (conf0\<lparr>c_replicas := - 3\<rparr>) env0 = ([], Fatal ReplicasNotOdd)" by code_simp
  have c: "sint (- 3 :: go_int) < 0" by code_simp
  show ?thesis
    using replicas_negative_or_even_aborts[of "conf0\<lparr>c_replicas := 2\<rparr>" env0]
      replicas_negative_or_even_aborts[of "conf0\<lparr>c_replicas := - 3\<rparr>" env0] a b c
    by simp
qed

lemma run_startup_Started_nodeId:
  "snd (run_startup c e) = Started opts \<Longrightarrow> nodeId opts = c_idx c \<and> c_idx c \<noteq> 0"
  by (auto simp: run_startup_def open_wal_def setupListener_def Let_def read_options_def
      split: option.splits if_splits dest!: start_servers_Started)

lemma run_startup_effects_idx:
  "fst (run_startup c e) \<noteq> [] \<Longrightarrow> c_idx c \<noteq> 0"
  by (auto simp: run_startup_def Let_def read_options_def split: if_splits option.splits)

text \<open>
  C9. With \<open>idx\<close> equal to 0, \<open>run()\<close> stops with a fatal error (exit status 1) and an
  empty list of effects. Conversely, whenever \<open>run()\<close> has opened a listener or started
  anything, and whenever it completes its startup, the node index \<open>opts.nodeId\<close> (a
  \<open>uint64\<close>, the bits of \<open>idx\<close>) is positive.
\<close>

theorem idx_zero_aborts:
  "(c_idx c = 0 \<longrightarrow> (\<exists>f. run_startup c e = ([], Fatal f) \<and> exit_status (Fatal f) = Some 1))
   \<and> (fst (run_startup c e) \<noteq> [] \<longrightarrow> 0 < unat (c_idx c))
   \<and> (\<forall>opts. snd (run_startup c e) = Started opts \<longrightarrow> nodeId opts = c_idx c \<and> 0 < unat (nodeId opts))"
proof (intro conjI impI allI)
  assume "c_idx c = 0"
  then show "\<exists>f. run_startup c e = ([], Fatal f) \<and> exit_status (Fatal f) = Some 1"
    by (simp add: run_startup_def Let_def read_options_def exit_status_def)
next
  assume "fst (run_startup c e) \<noteq> []"
  then show "0 < unat (c_idx c)"
    using run_startup_effects_idx[of c e] by (simp add: unat_gt_0)
next
  fix opts assume s: "snd (run_startup c e) = Started opts"
  show "nodeId opts = c_idx c" using run_startup_Started_nodeId[OF s] by simp
  show "0 < unat (nodeId opts)" using run_startup_Started_nodeId[OF s] by (simp add: unat_gt_0)
qed

theorem idx_zero_aborts_witness:
  "c_idx (conf0\<lparr>c_idx := 0\<rparr>) = 0 \<and> run_startup (conf0\<lparr>c_idx := 0\<rparr>) env0 = ([], Fatal IdxZero)
   \<and> fst (run_startup conf0 env0) \<noteq> [] \<and> 0 < unat (c_idx conf0)
   \<and> (\<exists>opts. snd (run_startup conf0 env0) = Started opts \<and> nodeId opts = 1)"
proof -
  have a: "run_startup (conf0\<lparr>c_idx := 0\<rparr>) env0 = ([], Fatal IdxZero)" by code_simp
  have b: "fst (run_startup conf0 env0) \<noteq> []" by code_simp
  have c: "snd (run_startup conf0 env0) = Started ((read_options conf0)\<lparr>myAddr := ''localhost:5080''\<rparr>)"
    by code_simp
  have d: "c_idx conf0 = 1" by (simp add: conf0_def)
  show ?thesis
    using idx_zero_aborts[of "conf0\<lparr>c_idx := 0\<rparr>" env0] idx_zero_aborts[of conf0 env0] a b c d
    by simp
qed











section \<open>The Closer: counting and signalling\<close>

lemma run_calls_count:
  "run_calls cs lc = Some lc' \<Longrightarrow> running lc' + released cs = running lc + added cs"
proof (induction cs arbitrary: lc)
  case Nil
  then show ?case by simp
next
  case (Cons c cs)
  then show ?case
    by (cases c) (auto simp: AddRunning_def Done_def Signal_def split: if_splits option.splits)
qed

lemma run_calls_stop:
  "run_calls cs lc = Some lc' \<Longrightarrow>
     stop_requested lc' \<longleftrightarrow> stop_requested lc \<or> list_ex is_signal cs"
proof (induction cs arbitrary: lc)
  case Nil
  then show ?case by simp
next
  case (Cons c cs)
  then show ?case
    by (cases c) (auto simp: AddRunning_def Done_def Signal_def split: if_splits option.splits)
qed

text \<open>
  C4. Take any sequence of \<open>AddRunning(n)\<close>, \<open>Done()\<close>, \<open>Signal()\<close> and
  \<open>SignalAndWait()\<close> calls on a Closer created with \<open>k\<close> units, none of which fails.
  The running count is \<open>k\<close> plus the units added minus the units released, and \<open>Wait()\<close>
  returns in the state reached exactly when a \<open>Signal()\<close> or \<open>SignalAndWait()\<close> is
  among the calls and the count is zero: never before a signal, never with a positive count.
\<close>

theorem wait_after_signal_and_zero:
  assumes "run_calls cs (NewCloser k) = Some lc"
  shows "running lc + released cs = k + added cs
       \<and> (Wait_returns lc \<longleftrightarrow> list_ex is_signal cs \<and> running lc = 0)
       \<and> (Wait_returns lc \<longrightarrow> list_ex is_signal cs \<and> released cs = k + added cs)"
  using run_calls_count[OF assms] run_calls_stop[OF assms]
  by (auto simp: Wait_returns_def NewCloser_def)

theorem wait_after_signal_and_zero_witness:
  "run_calls [CallAddRunning 1, CallSignal, CallDone, CallDone] (NewCloser 1)
     = Some \<lparr> running = 0, stop_requested = True \<rparr>
   \<and> Wait_returns \<lparr> running = 0, stop_requested = True \<rparr>
   \<and> list_ex is_signal [CallAddRunning 1, CallSignal, CallDone, CallDone]
   \<and> released [CallAddRunning 1, CallSignal, CallDone, CallDone]
       = 1 + added [CallAddRunning 1, CallSignal, CallDone, CallDone]
   \<and> run_calls [CallAddRunning 1, CallDone, CallDone] (NewCloser 1)
     = Some \<lparr> running = 0, stop_requested = False \<rparr>
   \<and> \<not> Wait_returns \<lparr> running = 0, stop_requested = False \<rparr>"
proof -
  have a: "run_calls [CallAddRunning 1, CallSignal, CallDone, CallDone] (NewCloser 1)
     = Some \<lparr> running = 0, stop_requested = True \<rparr>"
    by (simp add: NewCloser_def AddRunning_def Signal_def Done_def)
  have b: "run_calls [CallAddRunning 1, CallDone, CallDone] (NewCloser 1)
     = Some \<lparr> running = 0, stop_requested = False \<rparr>"
    by (simp add: NewCloser_def AddRunning_def Signal_def Done_def)
  show ?thesis
    using wait_after_signal_and_zero[OF a] wait_after_signal_and_zero[OF b] a b
    by simp
qed

lemma transitions_closed:
  "stop_requested lc \<Longrightarrow> run_calls cs lc = Some lc' \<Longrightarrow> transitions cs lc = 0"
proof (induction cs arbitrary: lc)
  case Nil
  then show ?case by simp
next
  case (Cons c cs)
  then show ?case
    by (cases c) (auto simp: AddRunning_def Done_def Signal_def split: if_splits option.splits)
qed

lemma transitions_open:
  "\<not> stop_requested lc \<Longrightarrow> run_calls cs lc = Some lc' \<Longrightarrow>
     transitions cs lc = (if list_ex is_signal cs then 1 else 0)"
proof (induction cs arbitrary: lc)
  case Nil
  then show ?case by simp
next
  case (Cons c cs)
  show ?case
  proof (cases "is_signal c")
    case True
    then have ac: "apply_call c lc = Some (Signal lc)" by (cases c) auto
    with Cons.prems have r: "run_calls cs (Signal lc) = Some lc'" by simp
    have "transitions cs (Signal lc) = 0"
      by (rule transitions_closed[OF _ r]) (simp add: Signal_def)
    with True ac Cons.prems show ?thesis by (simp add: Signal_def)
  next
    case False
    with Cons.prems obtain l1 where l1: "apply_call c lc = Some l1" "\<not> stop_requested l1"
      "run_calls cs l1 = Some lc'"
      by (cases c) (auto simp: AddRunning_def Done_def split: if_splits option.splits)
    from Cons.IH[OF l1(2,3)] l1 False Cons.prems show ?thesis by simp
  qed
qed

text \<open>
  C8. \<open>Signal()\<close> is idempotent: a second \<open>Signal()\<close> changes nothing, any number of
  them leaves the Closer as the first did, and \<open>Signal()\<close> never fails. In any sequence
  of calls on a new Closer, however the callers interleave, the number of shutdown
  transitions (calls that turn "stop requested" on) is one if the sequence contains a
  signal and zero otherwise.
\<close>

theorem signal_idempotent:
  "Signal (Signal lc) = Signal lc
   \<and> (Signal ^^ Suc n) lc = Signal lc
   \<and> apply_call CallSignal lc \<noteq> None
   \<and> (\<forall>lc'. run_calls cs (NewCloser k) = Some lc' \<longrightarrow>
        transitions cs (NewCloser k) = (if list_ex is_signal cs then 1 else 0))"
proof -
  have a: "Signal (Signal lc) = Signal lc" by (simp add: Signal_def)
  have b: "(Signal ^^ Suc n) lc = Signal lc"
    by (induction n) (simp_all add: Signal_def)
  show ?thesis using a b transitions_open[of "NewCloser k" cs]
    by (auto simp: NewCloser_def)
qed

theorem signal_idempotent_witness:
  "run_calls [CallSignal, CallDone, CallSignal, CallSignalAndWait] (NewCloser 1)
     = Some \<lparr> running = 0, stop_requested = True \<rparr>
   \<and> transitions [CallSignal, CallDone, CallSignal, CallSignalAndWait] (NewCloser 1) = 1
   \<and> (Signal ^^ 3) (NewCloser 1) = Signal (NewCloser 1)"
proof -
  have a: "run_calls [CallSignal, CallDone, CallSignal, CallSignalAndWait] (NewCloser 1)
     = Some \<lparr> running = 0, stop_requested = True \<rparr>"
    by (simp add: NewCloser_def Signal_def Done_def)
  have b: "(3::nat) = Suc 2" by simp
  show ?thesis
    using signal_idempotent[of "NewCloser 1" 2 "[CallSignal, CallDone, CallSignal, CallSignalAndWait]" 1] a
    unfolding b by simp
qed


section \<open>Schedules and invariants: proofs\<close>

lemma exec_invariant:
  assumes "P s0" and "\<And>a s s'. P s \<Longrightarrow> step a s = Some s' \<Longrightarrow> P s'" and "exec as s0 = Some s"
  shows "P s"
  using assms(1,3)
proof (induction as arbitrary: s0)
  case Nil then show ?case by simp
next
  case (Cons a as)
  then show ?case using assms(2) by (auto split: option.splits)
qed

lemma take_order:
  "take 2 teardown_order = [Begin CloseHTTP, End CloseHTTP]"
  "take 3 teardown_order = [Begin CloseHTTP, End CloseHTTP, Begin StopRaft]"
  "take 4 teardown_order = [Begin CloseHTTP, End CloseHTTP, Begin StopRaft, End StopRaft]"
  "take 6 teardown_order = [Begin CloseHTTP, End CloseHTTP, Begin StopRaft, End StopRaft,
      Begin TrySnapshot, End TrySnapshot]"
  "take 7 teardown_order = [Begin CloseHTTP, End CloseHTTP, Begin StopRaft, End StopRaft,
      Begin TrySnapshot, End TrySnapshot, Begin StopStore]"
  "take 8 teardown_order = [Begin CloseHTTP, End CloseHTTP, Begin StopRaft, End StopRaft,
      Begin TrySnapshot, End TrySnapshot, Begin StopStore, End StopStore]"
  "take 10 teardown_order = [Begin CloseHTTP, End CloseHTTP, Begin StopRaft, End StopRaft,
      Begin TrySnapshot, End TrySnapshot, Begin StopStore, End StopStore,
      Begin CloseGRPC, End CloseGRPC]"
  "take 12 teardown_order = [Begin CloseHTTP, End CloseHTTP, Begin StopRaft, End StopRaft,
      Begin TrySnapshot, End TrySnapshot, Begin StopStore, End StopStore,
      Begin CloseGRPC, End CloseGRPC, Begin RemoveCidFile, End RemoveCidFile]"
  by (simp_all add: teardown_order_def)

subsection \<open>What each step leaves alone\<close>

lemma deliver_frame:
  "m_pc (deliver sig s) = m_pc s" "s_pc (deliver sig s) = s_pc s" "g_pc (deliver sig s) = g_pc s"
  "trace (deliver sig s) = trace s" "snapshots (deliver sig s) = snapshots s"
  "node_closer (deliver sig s) = node_closer s" "store_closer (deliver sig s) = store_closer s"
  "zero_closer (deliver sig s) = zero_closer s" "http_tasks (deliver sig s) = http_tasks s"
  "kv_closes (deliver sig s) = kv_closes s" "sdCh_closed (deliver sig s) = sdCh_closed s"
  "notified (deliver sig s) = notified s" "h_pc (deliver sig s) = h_pc s"
  "sigCnt (deliver sig s) = sigCnt s" "signal_calls (deliver sig s) = signal_calls s"
  by (simp_all add: deliver_def)

lemma handler_frame:
  assumes "handler s = Some s'"
  shows "m_pc s' = m_pc s" "s_pc s' = s_pc s" "g_pc s' = g_pc s"
    "trace s' = trace s" "snapshots s' = snapshots s"
    "node_closer s' = node_closer s" "store_closer s' = store_closer s"
    "running (zero_closer s') = running (zero_closer s)" "http_tasks s' = http_tasks s"
    "kv_closes s' = kv_closes s" "sdCh_closed s' = sdCh_closed s"
  using assms
  by (cases "h_pc s";
      auto simp: handler_def Let_def Signal_def split: if_splits list.splits)+

lemma sequencer_frame:
  assumes "sequencer ok s = Some s'"
  shows "m_pc s' = m_pc s" "g_pc s' = g_pc s" "http_tasks s' = http_tasks s"
    "kv_closes s' = kv_closes s" "notified s' = notified s" "sdCh s' = sdCh s"
    "h_pc s' = h_pc s" "sigCnt s' = sigCnt s" "signal_calls s' = signal_calls s"
    "stop_requested (zero_closer s') = stop_requested (zero_closer s)"
  using assms
  by (cases "s_pc s";
      auto simp: sequencer_def trySnapshot_def Done_def split: if_splits option.splits)+

lemma grpc_frame:
  assumes "serveGRPC pick s = Some s'"
  shows "m_pc s' = m_pc s" "s_pc s' = s_pc s" "http_tasks s' = http_tasks s"
    "trace s' = trace s" "snapshots s' = snapshots s"
    "node_closer s' = node_closer s" "store_closer s' = store_closer s"
    "kv_closes s' = kv_closes s" "notified s' = notified s" "sdCh s' = sdCh s"
    "h_pc s' = h_pc s" "sigCnt s' = sigCnt s" "signal_calls s' = signal_calls s"
    "stop_requested (zero_closer s') = stop_requested (zero_closer s)"
    "sdCh_closed s' = sdCh_closed s"
  using assms
  by (cases "g_pc s";
      auto simp: serveGRPC_def Done_def split: if_splits option.splits select_case.splits)+

lemma main_frame:
  assumes "main s = Some s'"
  shows "g_pc s' = g_pc s" "http_tasks s' = http_tasks s"
    "trace s' = trace s" "snapshots s' = snapshots s"
    "node_closer s' = node_closer s" "store_closer s' = store_closer s"
    "notified s' = notified s" "sdCh s' = sdCh s"
    "h_pc s' = h_pc s" "sigCnt s' = sigCnt s" "signal_calls s' = signal_calls s"
    "stop_requested (zero_closer s') = stop_requested (zero_closer s)"
    "sdCh_closed s' = sdCh_closed s" "status s' = status s"
  using assms
  by (cases "m_pc s"; auto simp: main_def AddRunning_def split: if_splits)+

lemma http_task_done_frame:
  assumes "http_task_done s = Some s'"
  shows "m_pc s' = m_pc s" "s_pc s' = s_pc s" "g_pc s' = g_pc s"
    "trace s' = trace s" "snapshots s' = snapshots s"
    "node_closer s' = node_closer s" "store_closer s' = store_closer s"
    "kv_closes s' = kv_closes s" "notified s' = notified s" "sdCh s' = sdCh s"
    "h_pc s' = h_pc s" "sigCnt s' = sigCnt s" "signal_calls s' = signal_calls s"
    "stop_requested (zero_closer s') = stop_requested (zero_closer s)"
    "sdCh_closed s' = sdCh_closed s"
  using assms
  by (auto simp: http_task_done_def Done_def split: if_splits option.splits)

lemma node_done_frame:
  assumes "node_done s = Some s'"
  shows "m_pc s' = m_pc s" "s_pc s' = s_pc s" "g_pc s' = g_pc s"
    "trace s' = trace s" "snapshots s' = snapshots s" "store_closer s' = store_closer s"
    "zero_closer s' = zero_closer s" "http_tasks s' = http_tasks s"
    "kv_closes s' = kv_closes s" "notified s' = notified s" "sdCh s' = sdCh s"
    "h_pc s' = h_pc s" "sigCnt s' = sigCnt s" "signal_calls s' = signal_calls s"
    "sdCh_closed s' = sdCh_closed s" "status s' = status s"
    "stop_requested (node_closer s') = stop_requested (node_closer s)"
    "running (node_closer s') \<le> running (node_closer s)"
  using assms
  by (auto simp: node_done_def Done_def split: if_splits)

lemma store_done_frame:
  assumes "store_done s = Some s'"
  shows "m_pc s' = m_pc s" "s_pc s' = s_pc s" "g_pc s' = g_pc s"
    "trace s' = trace s" "snapshots s' = snapshots s" "node_closer s' = node_closer s"
    "zero_closer s' = zero_closer s" "http_tasks s' = http_tasks s"
    "kv_closes s' = kv_closes s" "notified s' = notified s" "sdCh s' = sdCh s"
    "h_pc s' = h_pc s" "sigCnt s' = sigCnt s" "signal_calls s' = signal_calls s"
    "sdCh_closed s' = sdCh_closed s" "status s' = status s"
    "stop_requested (store_closer s') = stop_requested (store_closer s)"
    "running (store_closer s') \<le> running (store_closer s)"
  using assms
  by (auto simp: store_done_def Done_def split: if_splits)

lemma other_frame:
  assumes "gc_done s = Some s' \<or> graceful_stop_returns s = Some s' \<or> timer_fires s = Some s'"
  shows "m_pc s' = m_pc s" "s_pc s' = s_pc s" "g_pc s' = g_pc s"
    "trace s' = trace s" "snapshots s' = snapshots s" "node_closer s' = node_closer s"
    "store_closer s' = store_closer s"
    "zero_closer s' = zero_closer s" "http_tasks s' = http_tasks s"
    "kv_closes s' = kv_closes s" "notified s' = notified s" "sdCh s' = sdCh s"
    "h_pc s' = h_pc s" "sigCnt s' = sigCnt s" "signal_calls s' = signal_calls s"
    "sdCh_closed s' = sdCh_closed s" "status s' = status s"
  using assms
  by (auto simp: gc_done_def graceful_stop_returns_def timer_fires_def Done_def split: if_splits)


lemma step_cases [consumes 1, case_names Deliver Handler Sequencer Grpc Main Http Node Store Other]:
  assumes "step a s = Some s'"
  obtains sig where "s' = deliver sig s"
  | "handler s = Some s'"
  | ok where "sequencer ok s = Some s'"
  | pick where "serveGRPC pick s = Some s'"
  | "main s = Some s'"
  | "http_task_done s = Some s'"
  | "node_done s = Some s'"
  | "store_done s = Some s'"
  | "gc_done s = Some s' \<or> graceful_stop_returns s = Some s' \<or> timer_fires s = Some s'"
  using assms
  by (cases a; auto simp: step_def split: if_splits)

lemma step_Alive: "step a s = Some s' \<Longrightarrow> status s = Alive"
  by (simp add: step_def split: if_splits)

subsection \<open>inv_pc\<close>

lemma inv_pc_init: "inv_pc (init cfg)"
  by (simp add: inv_pc_def init_def)

lemma sequencer_pc:
  assumes "sequencer ok s = Some s'"
  shows "s_pc s \<noteq> SNotStarted" "s_pc s' \<noteq> SNotStarted"
  using assms
  by (cases "s_pc s"; auto simp: sequencer_def trySnapshot_def split: if_splits option.splits)+

lemma main_pc:
  assumes "main s = Some s'" "inv_pc s"
  shows "inv_pc s'"
  using assms
  by (cases "m_pc s"; auto simp: main_def inv_pc_def split: if_splits)

lemma inv_pc_step: 
  assumes "inv_pc s" "step a s = Some s'"
  shows "inv_pc s'"
  using assms(2)
proof (cases rule: step_cases)
  case (Deliver sig)
  with assms(1) show ?thesis by (simp add: inv_pc_def deliver_frame)
next
  case Handler
  with assms(1) show ?thesis by (simp add: inv_pc_def handler_frame)
next
  case (Sequencer ok)
  with assms(1) show ?thesis using sequencer_pc[OF Sequencer]
    by (simp add: inv_pc_def sequencer_frame[OF Sequencer])
next
  case (Grpc pick)
  with assms(1) show ?thesis by (simp add: inv_pc_def grpc_frame)
next
  case Main
  then show ?thesis using assms(1) by (rule main_pc)
next
  case Http
  with assms(1) show ?thesis by (simp add: inv_pc_def http_task_done_frame)
next
  case Node
  with assms(1) show ?thesis by (simp add: inv_pc_def node_done_frame)
next
  case Store
  with assms(1) show ?thesis by (simp add: inv_pc_def store_done_frame)
next
  case Other
  with assms(1) show ?thesis by (simp add: inv_pc_def other_frame[OF Other])
qed

subsection \<open>inv_seq\<close>

lemma inv_seq_init: "inv_seq (init cfg)"
  by (simp add: inv_seq_def seq_facts_def init_def NewCloser_def)

lemma inv_seq_sequencer: "inv_seq s \<Longrightarrow> sequencer ok s = Some s' \<Longrightarrow> inv_seq s'"
  by (cases "s_pc s")
     (auto simp: inv_seq_def seq_facts_def sequencer_def trySnapshot_def Signal_def Wait_returns_def
        Done_def take_order split: if_splits option.splits)

lemma seq_facts_start: "seq_facts SNotStarted tr sn nc sc \<Longrightarrow> seq_facts SAwaitClosed tr sn nc sc"
  by (simp add: seq_facts_def)

lemma inv_seq_main: 
  assumes "inv_seq s" "inv_pc s" "main s = Some s'"
  shows "inv_seq s'"
proof (cases "m_pc s = MGo")
  case True
  with assms(2) have "s_pc s = SNotStarted" by (simp add: inv_pc_def)
  moreover from True assms(3) have "s_pc s' = SAwaitClosed" by (auto simp: main_def)
  ultimately show ?thesis using assms(1) main_frame[OF assms(3)]
    by (simp add: inv_seq_def seq_facts_start)
next
  case False
  with assms(3) have "s_pc s' = s_pc s"
    by (cases "m_pc s"; auto simp: main_def split: if_splits)
  then show ?thesis using assms(1) main_frame[OF assms(3)] by (simp add: inv_seq_def)
qed

lemma seq_facts_node_done:
  "seq_facts pc tr sn nc sc \<Longrightarrow> stop_requested nc' = stop_requested nc \<Longrightarrow>
     running nc' \<le> running nc \<Longrightarrow> seq_facts pc tr sn nc' sc"
  by (auto simp: seq_facts_def)

lemma seq_facts_store_done:
  "seq_facts pc tr sn nc sc \<Longrightarrow> stop_requested sc' = stop_requested sc \<Longrightarrow>
     running sc' \<le> running sc \<Longrightarrow> seq_facts pc tr sn nc sc'"
  by (auto simp: seq_facts_def)

lemma inv_seq_step: 
  assumes "inv_seq s" "inv_pc s" "step a s = Some s'"
  shows "inv_seq s'"
  using assms(3)
proof (cases rule: step_cases)
  case (Deliver sig)
  with assms(1) show ?thesis by (simp add: inv_seq_def deliver_frame)
next
  case Handler
  with assms(1) show ?thesis by (simp add: inv_seq_def handler_frame)
next
  case (Sequencer ok)
  with assms(1) show ?thesis by (rule inv_seq_sequencer)
next
  case (Grpc pick)
  with assms(1) show ?thesis by (simp add: inv_seq_def grpc_frame)
next
  case Main
  with assms(1,2) show ?thesis by (rule inv_seq_main)
next
  case Http
  with assms(1) show ?thesis by (simp add: inv_seq_def http_task_done_frame)
next
  case Node
  show ?thesis using assms(1) node_done_frame[OF Node]
    by (simp add: inv_seq_def seq_facts_node_done)
next
  case Store
  show ?thesis using assms(1) store_done_frame[OF Store]
    by (simp add: inv_seq_def seq_facts_store_done)
next
  case Other
  with assms(1) show ?thesis by (simp add: inv_seq_def other_frame[OF Other])
qed


subsection \<open>inv_link\<close>

lemma inv_link_init: "inv_link (init cfg)"
  by (simp add: inv_link_def init_def)

lemma handler_stop_mono:
  "handler s = Some s' \<Longrightarrow> stop_requested (zero_closer s) \<Longrightarrow> stop_requested (zero_closer s')"
  by (cases "h_pc s"; auto simp: handler_def Let_def Signal_def split: if_splits list.splits)

lemma inv_link_sequencer: "inv_link s \<Longrightarrow> sequencer ok s = Some s' \<Longrightarrow> inv_link s'"
  by (cases "s_pc s")
     (auto simp: inv_link_def sequencer_def trySnapshot_def HasBeenClosed_def Done_def
        split: if_splits option.splits)

lemma inv_link_main:
  assumes "inv_link s" "inv_pc s" "main s = Some s'"
  shows "inv_link s'"
proof (cases "m_pc s = MGo")
  case True
  with assms(2) have "s_pc s = SNotStarted" by (simp add: inv_pc_def)
  moreover from True assms(3) have "s_pc s' = SAwaitClosed" by (auto simp: main_def)
  ultimately show ?thesis using assms(1) main_frame[OF assms(3)]
    by (auto simp: inv_link_def)
next
  case False
  with assms(3) have "s_pc s' = s_pc s"
    by (cases "m_pc s"; auto simp: main_def split: if_splits)
  then show ?thesis using assms(1) main_frame[OF assms(3)] by (simp add: inv_link_def)
qed

lemma inv_link_step:
  assumes "inv_link s" "inv_pc s" "step a s = Some s'"
  shows "inv_link s'"
  using assms(3)
proof (cases rule: step_cases)
  case (Deliver sig)
  with assms(1) show ?thesis by (simp add: inv_link_def deliver_frame)
next
  case Handler
  with assms(1) show ?thesis using handler_stop_mono[OF Handler]
    by (auto simp: inv_link_def handler_frame[OF Handler])
next
  case (Sequencer ok)
  with assms(1) show ?thesis by (rule inv_link_sequencer)
next
  case (Grpc pick)
  with assms(1) show ?thesis by (simp add: inv_link_def grpc_frame)
next
  case Main
  with assms(1,2) show ?thesis by (rule inv_link_main)
next
  case Http
  with assms(1) show ?thesis by (simp add: inv_link_def http_task_done_frame)
next
  case Node
  with assms(1) show ?thesis by (simp add: inv_link_def node_done_frame)
next
  case Store
  with assms(1) show ?thesis by (simp add: inv_link_def store_done_frame)
next
  case Other
  with assms(1) show ?thesis by (simp add: inv_link_def other_frame[OF Other])
qed

subsection \<open>inv_sig\<close>

lemma inv_sig_init: "inv_sig (init cfg)"
  by (simp add: inv_sig_def sig_facts_def init_def NewCloser_def)

lemma sig_facts_status:
  "sig_facts nt ch pc cnt calls stop closed st \<Longrightarrow> st' = st \<or> st' = Panicked \<Longrightarrow>
     sig_facts nt ch pc cnt calls stop closed st'"
  by (auto simp: sig_facts_def)

lemma sig_facts_closed:
  "sig_facts nt ch pc cnt calls stop closed st \<Longrightarrow> stop \<Longrightarrow>
     sig_facts nt ch pc cnt calls stop closed' st"
  by (auto simp: sig_facts_def)

lemma inv_sig_deliver: "inv_sig s \<Longrightarrow> inv_sig (deliver sig s)"
  by (auto simp: inv_sig_def sig_facts_def deliver_def)

lemma inv_sig_handler: "inv_sig s \<Longrightarrow> handler s = Some s' \<Longrightarrow> inv_sig s'"
  by (cases "h_pc s")
     (auto simp: inv_sig_def sig_facts_def handler_def Let_def Signal_def
        split: if_splits list.splits)

lemma sequencer_sig:
  assumes "sequencer ok s = Some s'" "inv_link s"
  shows "sdCh_closed s' \<longrightarrow> sdCh_closed s \<or> stop_requested (zero_closer s)"
    "status s' = status s \<or> status s' = Panicked"
  using assms
  by (cases "s_pc s";
      auto simp: sequencer_def trySnapshot_def inv_link_def split: if_splits option.splits)+

lemma grpc_status:
  "serveGRPC pick s = Some s' \<Longrightarrow> status s' = status s \<or> status s' = Panicked"
  by (cases "g_pc s";
      auto simp: serveGRPC_def split: if_splits option.splits select_case.splits)

lemma http_status:
  "http_task_done s = Some s' \<Longrightarrow> status s' = status s \<or> status s' = Panicked"
  by (auto simp: http_task_done_def split: if_splits option.splits)

lemma inv_sig_step:
  assumes "inv_sig s" "inv_link s" "step a s = Some s'"
  shows "inv_sig s'"
  using assms(3)
proof (cases rule: step_cases)
  case (Deliver sig)
  with assms(1) show ?thesis by (simp add: inv_sig_deliver)
next
  case Handler
  with assms(1) show ?thesis by (rule inv_sig_handler)
next
  case (Sequencer ok)
  note f = sequencer_frame[OF Sequencer] sequencer_sig[OF Sequencer assms(2)]
  have "sig_facts (notified s) (sdCh s) (h_pc s) (sigCnt s) (signal_calls s)
       (stop_requested (zero_closer s)) (sdCh_closed s') (status s)"
  proof (cases "sdCh_closed s' = sdCh_closed s")
    case True with assms(1) show ?thesis by (simp add: inv_sig_def)
  next
    case False
    with f assms(1) have "stop_requested (zero_closer s)" by (auto simp: inv_sig_def sig_facts_def)
    with assms(1) show ?thesis unfolding inv_sig_def by (rule sig_facts_closed)
  qed
  then show ?thesis using f(12) unfolding inv_sig_def f(5-10)
    by (rule sig_facts_status)
next
  case (Grpc pick)
  show ?thesis using assms(1) grpc_status[OF Grpc] unfolding inv_sig_def grpc_frame[OF Grpc]
    by (rule sig_facts_status)
next
  case Main
  with assms(1) show ?thesis by (simp add: inv_sig_def main_frame)
next
  case Http
  show ?thesis using assms(1) http_status[OF Http]
    unfolding inv_sig_def http_task_done_frame[OF Http]
    by (rule sig_facts_status)
next
  case Node
  with assms(1) show ?thesis by (simp add: inv_sig_def node_done_frame)
next
  case Store
  with assms(1) show ?thesis by (simp add: inv_sig_def store_done_frame)
next
  case Other
  with assms(1) show ?thesis by (simp add: inv_sig_def other_frame[OF Other])
qed


subsection \<open>inv_count\<close>

lemma inv_count_init: "inv_count cfg (init cfg)"
  by (simp add: inv_count_def count_facts_def units_held_def init_def NewCloser_def)

lemma count_seq_move:
  "count_facts cfg r mp sp gp ht kc \<Longrightarrow> sp \<notin> {SNotStarted, SReturned} \<Longrightarrow>
     sp' \<notin> {SNotStarted, SReturned} \<Longrightarrow> count_facts cfg r mp sp' gp ht kc"
  by (auto simp: count_facts_def units_held_def)

lemma count_seq_done:
  "count_facts cfg (Suc r) mp sp gp ht kc \<Longrightarrow> sp \<notin> {SNotStarted, SReturned} \<Longrightarrow> mp \<noteq> MGo \<Longrightarrow>
     count_facts cfg r mp SReturned gp ht kc"
  by (auto simp: count_facts_def units_held_def)

lemma sequencer_count:
  assumes "sequencer ok s = Some s'"
  shows "s_pc s \<notin> {SNotStarted, SReturned}"
    "(s_pc s' \<notin> {SNotStarted, SReturned} \<and> running (zero_closer s') = running (zero_closer s))
     \<or> (s_pc s' = SReturned \<and> running (zero_closer s) = Suc (running (zero_closer s')))"
  using assms
  by (cases "s_pc s";
      auto simp: sequencer_def trySnapshot_def Done_def split: if_splits option.splits)+

lemma inv_count_sequencer:
  assumes "inv_count cfg s" "inv_pc s" "sequencer ok s = Some s'"
  shows "inv_count cfg s'"
proof -
  note f = sequencer_frame[OF assms(3)] and c = sequencer_count[OF assms(3)]
  from c(1) assms(2) have m: "m_pc s \<noteq> MGo" by (auto simp: inv_pc_def)
  from c(2) show ?thesis
  proof
    assume "s_pc s' \<notin> {SNotStarted, SReturned} \<and> running (zero_closer s') = running (zero_closer s)"
    then show ?thesis using assms(1) c(1) unfolding inv_count_def f
      by (auto intro: count_seq_move)
  next
    assume "s_pc s' = SReturned \<and> running (zero_closer s) = Suc (running (zero_closer s'))"
    then show ?thesis using assms(1) c(1) m unfolding inv_count_def f
      by (auto intro: count_seq_done)
  qed
qed

lemma count_grpc_move:
  "count_facts cfg r mp sp gp ht kc \<Longrightarrow> gp \<noteq> GReturned \<Longrightarrow> gp' \<noteq> GReturned \<Longrightarrow>
     count_facts cfg r mp sp gp' ht kc"
  by (auto simp: count_facts_def units_held_def)

lemma count_grpc_done:
  "count_facts cfg (Suc r) mp sp gp ht kc \<Longrightarrow> gp \<noteq> GReturned \<Longrightarrow>
     count_facts cfg r mp sp GReturned ht kc"
  by (auto simp: count_facts_def units_held_def)

lemma grpc_count:
  assumes "serveGRPC pick s = Some s'"
  shows "g_pc s \<noteq> GReturned"
    "(g_pc s' \<noteq> GReturned \<and> running (zero_closer s') = running (zero_closer s))
     \<or> (g_pc s' = GReturned \<and> running (zero_closer s) = Suc (running (zero_closer s')))"
  using assms
  by (cases "g_pc s";
      auto simp: serveGRPC_def Done_def split: if_splits option.splits select_case.splits)+

lemma inv_count_grpc:
  assumes "inv_count cfg s" "serveGRPC pick s = Some s'"
  shows "inv_count cfg s'"
proof -
  note f = grpc_frame[OF assms(2)] and c = grpc_count[OF assms(2)]
  from c(2) show ?thesis
  proof
    assume "g_pc s' \<noteq> GReturned \<and> running (zero_closer s') = running (zero_closer s)"
    then show ?thesis using assms(1) c(1) unfolding inv_count_def f
      by (auto intro: count_grpc_move)
  next
    assume "g_pc s' = GReturned \<and> running (zero_closer s) = Suc (running (zero_closer s'))"
    then show ?thesis using assms(1) c(1) unfolding inv_count_def f
      by (auto intro: count_grpc_done)
  qed
qed


lemma count_main_add:
  "count_facts cfg r MAddRunning SNotStarted gp ht kc \<Longrightarrow>
     count_facts cfg (Suc r) MGo SNotStarted gp ht kc"
  by (auto simp: count_facts_def units_held_def)

lemma count_main_go:
  "count_facts cfg r MGo SNotStarted gp ht kc \<Longrightarrow> count_facts cfg r MWait SAwaitClosed gp ht kc"
  by (auto simp: count_facts_def units_held_def)

lemma count_main_wait:
  "1 + http_units cfg \<le> zero_units cfg \<Longrightarrow> count_facts cfg 0 MWait sp gp ht kc \<Longrightarrow>
     sp \<noteq> SNotStarted \<Longrightarrow> count_facts cfg 0 MKvClose sp gp ht kc"
  by (auto simp: count_facts_def units_held_def split: if_splits)

lemma count_main_kv:
  "count_facts cfg r MKvClose sp gp ht kc \<Longrightarrow> count_facts cfg r MDeferGcSignal sp gp ht (kc + 1)"
  by (auto simp: count_facts_def units_held_def)

lemma count_main_defer:
  "count_facts cfg r MDeferGcSignal sp gp ht kc \<Longrightarrow> count_facts cfg r MDeferGcWait sp gp ht kc"
  "count_facts cfg r MDeferGcWait sp gp ht kc \<Longrightarrow> count_facts cfg r MDeferKvClose sp gp ht kc"
  "count_facts cfg r MDeferKvClose sp gp ht kc \<Longrightarrow> count_facts cfg r MReturned sp gp ht (kc + 1)"
  by (auto simp: count_facts_def units_held_def)

lemma inv_count_main:
  assumes "1 + http_units cfg \<le> zero_units cfg" "inv_count cfg s" "inv_pc s" "main s = Some s'"
  shows "inv_count cfg s'"
proof (cases "m_pc s")
  case MAddRunning
  with assms(3) have sp: "s_pc s = SNotStarted" by (simp add: inv_pc_def)
  from MAddRunning assms(4) have "s' = s\<lparr>zero_closer := AddRunning 1 (zero_closer s), m_pc := MGo\<rparr>"
    by (simp add: main_def)
  then show ?thesis using assms(2) MAddRunning sp
    by (simp add: inv_count_def AddRunning_def count_main_add)
next
  case MGo
  with assms(3) have sp: "s_pc s = SNotStarted" by (simp add: inv_pc_def)
  from MGo assms(4) have "s' = s\<lparr>s_pc := SAwaitClosed, log := log s @ [RunningZero], m_pc := MWait\<rparr>"
    by (simp add: main_def)
  then show ?thesis using assms(2) MGo sp
    by (simp add: inv_count_def count_main_go)
next
  case MWait
  with assms(3) have sp: "s_pc s \<noteq> SNotStarted" by (simp add: inv_pc_def)
  from MWait assms(4) have "s' = s\<lparr>log := log s @ [CloserClosed], m_pc := MKvClose\<rparr>"
    and "running (zero_closer s) = 0"
    by (auto simp: main_def Wait_returns_def split: if_splits)
  then show ?thesis using assms(1,2) MWait sp
    by (simp add: inv_count_def count_main_wait)
next
  case MKvClose
  with assms(4) have "s' = s\<lparr>kv_closes := kv_closes s + 1, log := log s @ [BadgerClosed, AllDone],
                  m_pc := MDeferGcSignal\<rparr>"
    by (simp add: main_def)
  then show ?thesis using assms(2) MKvClose count_main_kv[of cfg _ "s_pc s" "g_pc s" "http_tasks s" "kv_closes s"]
    by (simp add: inv_count_def)
next
  case MDeferGcSignal
  with assms(4) have "s' = s\<lparr>gc_closer := Signal (gc_closer s), m_pc := MDeferGcWait\<rparr>"
    by (simp add: main_def)
  then show ?thesis using assms(2) MDeferGcSignal
    by (simp add: inv_count_def count_main_defer)
next
  case MDeferGcWait
  with assms(4) have "s' = s\<lparr>m_pc := MDeferKvClose\<rparr>"
    by (auto simp: main_def split: if_splits)
  then show ?thesis using assms(2) MDeferGcWait
    by (simp add: inv_count_def count_main_defer)
next
  case MDeferKvClose
  with assms(4) have "s' = s\<lparr>kv_closes := kv_closes s + 1, m_pc := MReturned\<rparr>"
    by (simp add: main_def)
  then show ?thesis using assms(2) MDeferKvClose
      count_main_defer(3)[of cfg _ "s_pc s" "g_pc s" "http_tasks s" "kv_closes s"]
    by (simp add: inv_count_def)
next
  case MReturned
  with assms(4) show ?thesis by (simp add: main_def)
qed

lemma count_http_done:
  "count_facts cfg (Suc r) mp sp gp (Suc ht) kc \<Longrightarrow> count_facts cfg r mp sp gp ht kc"
  by (auto simp: count_facts_def units_held_def)

lemma inv_count_http:
  assumes "inv_count cfg s" "http_task_done s = Some s'"
  shows "inv_count cfg s'"
proof (cases "Done (zero_closer s)")
  case None
  with assms(2) have "s' = s\<lparr>status := Panicked\<rparr>"
    by (auto simp: http_task_done_def split: if_splits)
  with assms(1) show ?thesis by (simp add: inv_count_def)
next
  case (Some lc)
  with assms(2) have s': "s' = s\<lparr>zero_closer := lc, http_tasks := http_tasks s - 1\<rparr>"
    and h: "http_tasks s \<noteq> 0"
    by (auto simp: http_task_done_def split: if_splits)
  from Some have r: "running (zero_closer s) = Suc (running lc)"
    by (auto simp: Done_def split: if_splits)
  from h obtain ht where ht: "http_tasks s = Suc ht" by (cases "http_tasks s") auto
  show ?thesis using assms(1) unfolding inv_count_def s' r ht
    by (simp add: count_http_done)
qed

lemma inv_count_step:
  assumes "1 + http_units cfg \<le> zero_units cfg" "inv_count cfg s" "inv_pc s" "step a s = Some s'"
  shows "inv_count cfg s'"
  using assms(4)
proof (cases rule: step_cases)
  case (Deliver sig)
  with assms(2) show ?thesis by (simp add: inv_count_def deliver_frame)
next
  case Handler
  with assms(2) show ?thesis by (simp add: inv_count_def handler_frame)
next
  case (Sequencer ok)
  with assms(2,3) show ?thesis by (rule inv_count_sequencer)
next
  case (Grpc pick)
  with assms(2) show ?thesis by (rule inv_count_grpc)
next
  case Main
  with assms(1,2,3) show ?thesis by (rule inv_count_main)
next
  case Http
  with assms(2) show ?thesis by (rule inv_count_http)
next
  case Node
  with assms(2) show ?thesis by (simp add: inv_count_def node_done_frame)
next
  case Store
  with assms(2) show ?thesis by (simp add: inv_count_def store_done_frame)
next
  case Other
  with assms(2) show ?thesis by (simp add: inv_count_def other_frame[OF Other])
qed

subsection \<open>The invariants along a schedule\<close>

lemma reachable_inv:
  assumes "exec as (init cfg) = Some s"
  shows "inv_pc s" "inv_seq s" "inv_link s" "inv_sig s"
proof -
  have "inv_pc s \<and> inv_seq s \<and> inv_link s \<and> inv_sig s"
  proof (rule exec_invariant[where P = "\<lambda>s. inv_pc s \<and> inv_seq s \<and> inv_link s \<and> inv_sig s", OF _ _ assms])
    show "inv_pc (init cfg) \<and> inv_seq (init cfg) \<and> inv_link (init cfg) \<and> inv_sig (init cfg)"
      by (simp add: inv_pc_init inv_seq_init inv_link_init inv_sig_init)
  next
    fix a s s'
    assume "inv_pc s \<and> inv_seq s \<and> inv_link s \<and> inv_sig s" "step a s = Some s'"
    then show "inv_pc s' \<and> inv_seq s' \<and> inv_link s' \<and> inv_sig s'"
      using inv_pc_step inv_seq_step inv_link_step inv_sig_step by blast
  qed
  then show "inv_pc s" "inv_seq s" "inv_link s" "inv_sig s" by simp_all
qed

lemma reachable_inv_count:
  assumes "1 + http_units cfg \<le> zero_units cfg" "exec as (init cfg) = Some s"
  shows "inv_count cfg s"
proof -
  have "inv_pc s \<and> inv_count cfg s"
  proof (rule exec_invariant[where P = "\<lambda>s. inv_pc s \<and> inv_count cfg s", OF _ _ assms(2)])
    show "inv_pc (init cfg) \<and> inv_count cfg (init cfg)"
      by (simp add: inv_pc_init inv_count_init)
  next
    fix a s s'
    assume "inv_pc s \<and> inv_count cfg s" "step a s = Some s'"
    then show "inv_pc s' \<and> inv_count cfg s'"
      using inv_pc_step inv_count_step[OF assms(1)] by blast
  qed
  then show ?thesis by simp
qed


subsection \<open>What each step leaves alone: listeners, identity file, gRPC stop\<close>

lemma deliver_frame_res:
  "http_open (deliver sig s) = http_open s" "grpc_open (deliver sig s) = grpc_open s"
  "cid_file (deliver sig s) = cid_file s" "force_stops (deliver sig s) = force_stops s"
  "timer_fired (deliver sig s) = timer_fired s" "graceful_done (deliver sig s) = graceful_done s"
  "log (deliver sig s) = log s"
  by (simp_all add: deliver_def)

lemma handler_frame_res:
  assumes "handler s = Some s'"
  shows "http_open s' = http_open s" "grpc_open s' = grpc_open s" "cid_file s' = cid_file s"
    "force_stops s' = force_stops s" "timer_fired s' = timer_fired s"
    "graceful_done s' = graceful_done s"
    "(ForceStopping \<in> set (log s')) = (ForceStopping \<in> set (log s))"
  using assms
  by (cases "h_pc s";
      auto simp: handler_def Let_def split: if_splits list.splits)+

lemma sequencer_frame_res:
  assumes "sequencer ok s = Some s'"
  shows "force_stops s' = force_stops s" "timer_fired s' = timer_fired s"
    "graceful_done s' = graceful_done s"
    "(ForceStopping \<in> set (log s')) = (ForceStopping \<in> set (log s))"
  using assms
  by (cases "s_pc s";
      auto simp: sequencer_def trySnapshot_def split: if_splits option.splits)+


lemma main_frame_res:
  assumes "main s = Some s'"
  shows "http_open s' = http_open s" "grpc_open s' = grpc_open s" "cid_file s' = cid_file s"
    "force_stops s' = force_stops s" "timer_fired s' = timer_fired s"
    "graceful_done s' = graceful_done s"
    "(ForceStopping \<in> set (log s')) = (ForceStopping \<in> set (log s))"
  using assms
  by (cases "m_pc s"; auto simp: main_def split: if_splits)+

lemma done_frame_res:
  assumes "http_task_done s = Some s' \<or> node_done s = Some s' \<or> store_done s = Some s'
    \<or> gc_done s = Some s'"
  shows "http_open s' = http_open s" "grpc_open s' = grpc_open s" "cid_file s' = cid_file s"
    "force_stops s' = force_stops s" "timer_fired s' = timer_fired s"
    "graceful_done s' = graceful_done s" "log s' = log s" "g_pc s' = g_pc s" "s_pc s' = s_pc s"
  using assms
  by (auto simp: http_task_done_def node_done_def store_done_def gc_done_def
      split: if_splits option.splits)


lemma step_cases_fine [consumes 1,
    case_names Deliver Handler Sequencer Grpc Main Done Graceful Timer]:
  assumes "step a s = Some s'"
  obtains sig where "s' = deliver sig s"
  | "handler s = Some s'"
  | ok where "sequencer ok s = Some s'"
  | pick where "serveGRPC pick s = Some s'"
  | "main s = Some s'"
  | "http_task_done s = Some s' \<or> node_done s = Some s' \<or> store_done s = Some s'
      \<or> gc_done s = Some s'"
  | "graceful_stop_returns s = Some s'"
  | "timer_fires s = Some s'"
  using assms
  by (cases a; auto simp: step_def split: if_splits)

subsection \<open>inv_res\<close>






subsection \<open>inv_grpc\<close>

lemma inv_grpc_init: "inv_grpc (init cfg)"
  by (simp add: inv_grpc_def grpc_facts_def init_def)

lemma inv_grpc_serveGRPC: "inv_grpc s \<Longrightarrow> serveGRPC pick s = Some s' \<Longrightarrow> inv_grpc s'"
  by (cases "g_pc s")
     (auto simp: inv_grpc_def grpc_facts_def serveGRPC_def select_stop_def
        split: if_splits option.splits select_case.splits)

lemma grpc_facts_done:
  "grpc_facts pc fs tf gd fl \<Longrightarrow> pc \<notin> {GServe, GStop} \<Longrightarrow> grpc_facts pc fs tf True fl"
  by (auto simp: grpc_facts_def split: if_splits)

lemma grpc_facts_timer:
  "grpc_facts pc fs tf gd fl \<Longrightarrow> pc \<notin> {GServe, GStop} \<Longrightarrow> grpc_facts pc fs True gd fl"
  by (auto simp: grpc_facts_def split: if_splits)

lemma inv_grpc_step:
  assumes "inv_grpc s" "step a s = Some s'"
  shows "inv_grpc s'"
  using assms(2)
proof (cases rule: step_cases_fine)
  case (Deliver sig)
  with assms(1) show ?thesis by (simp add: inv_grpc_def deliver_frame deliver_frame_res)
next
  case Handler
  with assms(1) show ?thesis by (simp add: inv_grpc_def handler_frame handler_frame_res)
next
  case (Sequencer ok)
  with assms(1) show ?thesis by (simp add: inv_grpc_def sequencer_frame sequencer_frame_res)
next
  case (Grpc pick)
  with assms(1) show ?thesis by (rule inv_grpc_serveGRPC)
next
  case Main
  with assms(1) show ?thesis by (simp add: inv_grpc_def main_frame main_frame_res)
next
  case Done
  with assms(1) show ?thesis by (simp add: inv_grpc_def done_frame_res[OF Done])
next
  case Graceful
  then have s': "s' = s\<lparr>graceful_done := True\<rparr>" and pc: "g_pc s \<notin> {GServe, GStop}"
    by (auto simp: graceful_stop_returns_def split: if_splits)
  from assms(1) pc show ?thesis unfolding inv_grpc_def s'
    by (simp add: grpc_facts_done)
next
  case Timer
  then have s': "s' = s\<lparr>timer_fired := True\<rparr>" and pc: "g_pc s \<notin> {GServe, GStop}"
    by (auto simp: timer_fires_def split: if_splits)
  from assms(1) pc show ?thesis unfolding inv_grpc_def s'
    by (simp add: grpc_facts_timer)
qed


lemma reachable_inv_grpc:
  assumes "exec as (init cfg) = Some s"
  shows "inv_grpc s"
  by (rule exec_invariant[where P = inv_grpc, OF inv_grpc_init _ assms]) (rule inv_grpc_step)


section \<open>The claims about signals and shutdown\<close>






text \<open>
  C5. Let the count that \<open>Server.Init\<close> gives the top-level Closer cover the gRPC goroutine
  and the HTTP tasks. Then in every run, \<open>kv.Close()\<close> has been called (at line 412 or as
  the deferred call of line 334) only when \<open>run()\<close> is past \<open>Wait()\<close>, the stop was
  requested, the shutdown goroutine has returned with all six steps done, and the gRPC
  goroutine has returned from its stop. While a teardown step or the gRPC stop is still to
  run, the store has not been closed.
\<close>

theorem kv_closed_after_teardown:
  assumes "1 + http_units cfg \<le> zero_units cfg" and "exec acts (init cfg) = Some s"
  shows "(0 < kv_closes s \<longrightarrow>
            m_pc s \<in> {MDeferGcSignal, MDeferGcWait, MDeferKvClose, MReturned}
          \<and> stop_requested (zero_closer s)
          \<and> s_pc s = SReturned \<and> trace s = teardown_order
          \<and> g_pc s = GReturned \<and> http_tasks s = 0)
       \<and> (trace s \<noteq> teardown_order \<or> g_pc s \<noteq> GReturned \<longrightarrow> kv_closes s = 0)"
proof -
  from reachable_inv_count[OF assms] have c: "count_facts cfg (running (zero_closer s)) (m_pc s) (s_pc s)
     (g_pc s) (http_tasks s) (kv_closes s)"
    by (simp add: inv_count_def)
  from reachable_inv[OF assms(2)] have t: "trace s = take (progress (s_pc s)) teardown_order"
    and l: "inv_link s"
    by (simp_all add: inv_seq_def seq_facts_def)
  have a: "0 < kv_closes s \<Longrightarrow> m_pc s \<in> {MDeferGcSignal, MDeferGcWait, MDeferKvClose, MReturned}
      \<and> s_pc s = SReturned \<and> g_pc s = GReturned \<and> http_tasks s = 0"
    using c by (auto simp: count_facts_def)
  have b: "s_pc s = SReturned \<Longrightarrow> trace s = teardown_order \<and> stop_requested (zero_closer s)"
    using t l by (simp add: teardown_order_def inv_link_def)
  from a b show ?thesis by blast
qed

theorem kv_closed_after_teardown_witness:
  "1 + http_units sysconf0 \<le> zero_units sysconf0 \<and>
   (\<exists>s. exec schedule0 (init sysconf0) = Some s \<and> 0 < kv_closes s
      \<and> s_pc s = SReturned \<and> trace s = teardown_order \<and> g_pc s = GReturned \<and> http_tasks s = 0)"
proof -
  have h: "1 + http_units sysconf0 \<le> zero_units sysconf0" by (simp add: sysconf0_def)
  have "exec schedule0 (init sysconf0) \<noteq> None" by code_simp
  then obtain s where e: "exec schedule0 (init sysconf0) = Some s" by auto
  have "map_option kv_closes (exec schedule0 (init sysconf0)) = Some 2" by code_simp
  with e have k: "0 < kv_closes s" by simp
  from kv_closed_after_teardown[OF h e] k e h show ?thesis by blast
qed





section \<open>The two-phase stop of the gRPC server\<close>

lemma select_step:
  assumes "g_pc s = GSelect" "status s = Alive"
  shows "graceful_done s \<Longrightarrow> \<not> timer_fired s \<Longrightarrow> step (Grpc pick) s = Some (s\<lparr>g_pc := GDeferDone\<rparr>)"
    "\<not> graceful_done s \<Longrightarrow> timer_fired s \<Longrightarrow>
       step (Grpc pick) s = Some (s\<lparr>log := log s @ [ForceStopping], g_pc := GForce\<rparr>)"
    "\<not> graceful_done s \<Longrightarrow> \<not> timer_fired s \<Longrightarrow> step (Grpc pick) s = None"
    "graceful_done s \<Longrightarrow> timer_fired s \<Longrightarrow> step (Grpc CaseDone) s = Some (s\<lparr>g_pc := GDeferDone\<rparr>)"
    "graceful_done s \<Longrightarrow> timer_fired s \<Longrightarrow>
       step (Grpc CaseTimeout) s = Some (s\<lparr>log := log s @ [ForceStopping], g_pc := GForce\<rparr>)"
  using assms by (simp_all add: step_def serveGRPC_def select_stop_def)

lemma force_step:
  assumes "g_pc s = GForce" "status s = Alive"
  shows "step (Grpc pick) s = Some (s\<lparr>force_stops := force_stops s + 1, g_pc := GDeferDone\<rparr>)"
  using assms by (simp add: step_def serveGRPC_def)


text \<open>
  C3, as amended. In every run \<open>s.Stop()\<close> is called at most once, and only after the
  timer has fired: never earlier. A goroutine that has left the \<open>select\<close> without a
  forced stop found \<open>done\<close> closed, and one that logged the forced stop has called
  \<open>s.Stop()\<close> exactly once. When the goroutine takes the \<open>select\<close>: if only the
  graceful stop has completed, the stop is graceful and \<open>s.Stop()\<close> is not called; if
  only the timer has fired, it takes the timeout case, and its next statement calls
  \<open>s.Stop()\<close> once; if neither has happened it stays blocked; if both have happened, both
  cases can be taken. Neither the \<open>select\<close> nor \<open>s.Stop()\<close> ends the process or raises
  an error.
\<close>

theorem forced_stop_only_after_timer:
  assumes "exec acts (init cfg) = Some s"
  shows "force_stops s \<le> 1
       \<and> (0 < force_stops s \<longrightarrow>
            timer_fired s \<and> g_pc s \<in> {GDeferDone, GReturned} \<and> ForceStopping \<in> set (log s))
       \<and> (g_pc s \<in> {GDeferDone, GReturned} \<and> force_stops s = 0 \<longrightarrow>
            graceful_done s \<and> ForceStopping \<notin> set (log s))
       \<and> (g_pc s \<in> {GDeferDone, GReturned} \<and> ForceStopping \<in> set (log s) \<longrightarrow> force_stops s = 1)
       \<and> (g_pc s = GSelect \<and> status s = Alive \<longrightarrow>
            (graceful_done s \<and> \<not> timer_fired s \<longrightarrow>
               (\<forall>pick. \<exists>s'. step (Grpc pick) s = Some s' \<and> g_pc s' = GDeferDone
                  \<and> force_stops s' = 0 \<and> status s' = Alive))
          \<and> (\<not> graceful_done s \<and> timer_fired s \<longrightarrow>
               (\<forall>pick. \<exists>s'. step (Grpc pick) s = Some s' \<and> g_pc s' = GForce \<and> status s' = Alive))
          \<and> (\<not> graceful_done s \<and> \<not> timer_fired s \<longrightarrow> (\<forall>pick. step (Grpc pick) s = None))
          \<and> (graceful_done s \<and> timer_fired s \<longrightarrow>
               (\<exists>s'. step (Grpc CaseDone) s = Some s' \<and> g_pc s' = GDeferDone \<and> force_stops s' = 0)
             \<and> (\<exists>s'. step (Grpc CaseTimeout) s = Some s' \<and> g_pc s' = GForce)))
       \<and> (g_pc s = GForce \<and> status s = Alive \<longrightarrow>
            (\<forall>pick. \<exists>s'. step (Grpc pick) s = Some s' \<and> g_pc s' = GDeferDone
               \<and> force_stops s' = 1 \<and> status s' = Alive))"
proof -
  from reachable_inv_grpc[OF assms] have f: "grpc_facts (g_pc s) (force_stops s) (timer_fired s)
      (graceful_done s) (ForceStopping \<in> set (log s))"
    by (simp add: inv_grpc_def)
  have 1: "force_stops s \<le> 1"
    using f by (cases "g_pc s") (auto simp: grpc_facts_def split: if_splits)
  have 2: "0 < force_stops s \<longrightarrow>
            timer_fired s \<and> g_pc s \<in> {GDeferDone, GReturned} \<and> ForceStopping \<in> set (log s)"
    using f by (cases "g_pc s") (auto simp: grpc_facts_def split: if_splits)
  have 3: "g_pc s \<in> {GDeferDone, GReturned} \<and> force_stops s = 0 \<longrightarrow>
            graceful_done s \<and> ForceStopping \<notin> set (log s)"
    using f by (auto simp: grpc_facts_def split: if_splits)
  have 4: "g_pc s \<in> {GDeferDone, GReturned} \<and> ForceStopping \<in> set (log s) \<longrightarrow> force_stops s = 1"
    using f by (auto simp: grpc_facts_def split: if_splits)
  have 5: "g_pc s = GSelect \<and> status s = Alive \<longrightarrow>
            (graceful_done s \<and> \<not> timer_fired s \<longrightarrow>
               (\<forall>pick. \<exists>s'. step (Grpc pick) s = Some s' \<and> g_pc s' = GDeferDone
                  \<and> force_stops s' = 0 \<and> status s' = Alive))
          \<and> (\<not> graceful_done s \<and> timer_fired s \<longrightarrow>
               (\<forall>pick. \<exists>s'. step (Grpc pick) s = Some s' \<and> g_pc s' = GForce \<and> status s' = Alive))
          \<and> (\<not> graceful_done s \<and> \<not> timer_fired s \<longrightarrow> (\<forall>pick. step (Grpc pick) s = None))
          \<and> (graceful_done s \<and> timer_fired s \<longrightarrow>
               (\<exists>s'. step (Grpc CaseDone) s = Some s' \<and> g_pc s' = GDeferDone \<and> force_stops s' = 0)
             \<and> (\<exists>s'. step (Grpc CaseTimeout) s = Some s' \<and> g_pc s' = GForce))"
    (is "_ \<longrightarrow> ?C")
  proof (intro impI, elim conjE)
    assume p: "g_pc s = GSelect" "status s = Alive"
    from f p(1) have z: "force_stops s = 0" by (simp add: grpc_facts_def)
    show ?C using z p(2) by (simp add: select_step[OF p])
  qed
  have 6: "g_pc s = GForce \<and> status s = Alive \<longrightarrow>
            (\<forall>pick. \<exists>s'. step (Grpc pick) s = Some s' \<and> g_pc s' = GDeferDone
               \<and> force_stops s' = 1 \<and> status s' = Alive)"
    (is "_ \<longrightarrow> ?D")
  proof (intro impI, elim conjE)
    assume p: "g_pc s = GForce" "status s = Alive"
    from f p(1) have z: "force_stops s = 0" by (simp add: grpc_facts_def)
    show ?D using z p(2) by (simp add: force_step[OF p])
  qed
  show ?thesis
    by (intro conjI) (rule 1 2 3 4 5 6)+
qed


theorem forced_stop_only_after_timer_witness:
  "(\<exists>s. exec timer_first (init sysconf0) = Some s \<and> stop_view s = (False, True, 1, GDeferDone)
        \<and> ForceStopping \<in> set (log s))
   \<and> (\<exists>s. exec schedule0 (init sysconf0) = Some s \<and> stop_view s = (True, False, 0, GReturned)
        \<and> ForceStopping \<notin> set (log s))
   \<and> (\<exists>s s'. exec drained_first (init sysconf0) = Some s \<and> stop_view s = (True, False, 0, GSelect)
        \<and> step (Grpc CaseTimeout) s = Some s' \<and> g_pc s' = GDeferDone \<and> force_stops s' = 0)"
proof (intro conjI)
  have "exec timer_first (init sysconf0) \<noteq> None" by code_simp
  then obtain s1 where e1: "exec timer_first (init sysconf0) = Some s1" by auto
  have "map_option stop_view (exec timer_first (init sysconf0)) = Some (False, True, 1, GDeferDone)"
    by code_simp
  with e1 have v1: "stop_view s1 = (False, True, 1, GDeferDone)" by simp
  then have p1: "0 < force_stops s1" by (simp add: stop_view_def)
  from forced_stop_only_after_timer[OF e1]
  have "0 < force_stops s1 \<longrightarrow>
      timer_fired s1 \<and> g_pc s1 \<in> {GDeferDone, GReturned} \<and> ForceStopping \<in> set (log s1)"
    by (elim conjE)
  with p1 have "ForceStopping \<in> set (log s1)" by simp
  with e1 v1 show "\<exists>s. exec timer_first (init sysconf0) = Some s
      \<and> stop_view s = (False, True, 1, GDeferDone) \<and> ForceStopping \<in> set (log s)"
    by blast
next
  have "exec schedule0 (init sysconf0) \<noteq> None" by code_simp
  then obtain s2 where e2: "exec schedule0 (init sysconf0) = Some s2" by auto
  have "map_option stop_view (exec schedule0 (init sysconf0)) = Some (True, False, 0, GReturned)"
    by code_simp
  with e2 have v2: "stop_view s2 = (True, False, 0, GReturned)" by simp
  then have p2: "g_pc s2 \<in> {GDeferDone, GReturned} \<and> force_stops s2 = 0"
    by (simp add: stop_view_def)
  from forced_stop_only_after_timer[OF e2]
  have "g_pc s2 \<in> {GDeferDone, GReturned} \<and> force_stops s2 = 0 \<longrightarrow>
      graceful_done s2 \<and> ForceStopping \<notin> set (log s2)"
    by (elim conjE)
  with p2 have "ForceStopping \<notin> set (log s2)" by simp
  with e2 v2 show "\<exists>s. exec schedule0 (init sysconf0) = Some s
      \<and> stop_view s = (True, False, 0, GReturned) \<and> ForceStopping \<notin> set (log s)"
    by blast
next
  have "exec drained_first (init sysconf0) \<noteq> None" by code_simp
  then obtain s3 where e3: "exec drained_first (init sysconf0) = Some s3" by auto
  have "map_option stop_view (exec drained_first (init sysconf0)) = Some (True, False, 0, GSelect)"
    "map_option status (exec drained_first (init sysconf0)) = Some Alive"
    by code_simp+
  with e3 have v3: "stop_view s3 = (True, False, 0, GSelect)" "status s3 = Alive" by simp_all
  then have p3: "g_pc s3 = GSelect \<and> status s3 = Alive" "graceful_done s3 \<and> \<not> timer_fired s3"
    by (simp_all add: stop_view_def)
  from forced_stop_only_after_timer[OF e3]
  have "g_pc s3 = GSelect \<and> status s3 = Alive \<longrightarrow>
            (graceful_done s3 \<and> \<not> timer_fired s3 \<longrightarrow>
               (\<forall>pick. \<exists>s'. step (Grpc pick) s3 = Some s' \<and> g_pc s' = GDeferDone
                  \<and> force_stops s' = 0 \<and> status s' = Alive))
          \<and> (\<not> graceful_done s3 \<and> timer_fired s3 \<longrightarrow>
               (\<forall>pick. \<exists>s'. step (Grpc pick) s3 = Some s' \<and> g_pc s' = GForce \<and> status s' = Alive))
          \<and> (\<not> graceful_done s3 \<and> \<not> timer_fired s3 \<longrightarrow> (\<forall>pick. step (Grpc pick) s3 = None))
          \<and> (graceful_done s3 \<and> timer_fired s3 \<longrightarrow>
               (\<exists>s'. step (Grpc CaseDone) s3 = Some s' \<and> g_pc s' = GDeferDone \<and> force_stops s' = 0)
             \<and> (\<exists>s'. step (Grpc CaseTimeout) s3 = Some s' \<and> g_pc s' = GForce))"
    by (elim conjE)
  with p3 have "\<forall>pick. \<exists>s'. step (Grpc pick) s3 = Some s' \<and> g_pc s' = GDeferDone
                  \<and> force_stops s' = 0 \<and> status s' = Alive"
    by blast
  then obtain s' where "step (Grpc CaseTimeout) s3 = Some s'" "g_pc s' = GDeferDone" "force_stops s' = 0"
    by blast
  with e3 v3 show "\<exists>s s'. exec drained_first (init sysconf0) = Some s
      \<and> stop_view s = (True, False, 0, GSelect)
      \<and> step (Grpc CaseTimeout) s = Some s' \<and> g_pc s' = GDeferDone \<and> force_stops s' = 0"
    by blast
qed

text \<open>
  The claim as stated fails when the goroutine is late: \<open>s.GracefulStop()\<close> has returned
  and \<open>done\<close> is closed before the timer fires, so the graceful stop completed within
  the timeout; the timer fires before the goroutine runs again; the \<open>select\<close> then finds
  both cases ready and may take the timeout case, which calls \<open>s.Stop()\<close>.
\<close>

theorem late_select_forces_drained_stop:
  "map_option stop_view (exec drained_first (init sysconf0)) = Some (True, False, 0, GSelect)
   \<and> map_option stop_view (exec late_select (init sysconf0)) = Some (True, True, 1, GDeferDone)"
  by code_simp


section \<open>The signal handler\<close>

lemma handler_never_aborts:
  assumes "exec acts (init cfg) = Some s"
  shows "sigCnt s \<le> 2 \<and> h_pc s \<noteq> HExit \<and> (\<forall>n. status s \<noteq> Exited n) \<and> signal_calls s \<le> 1"
proof -
  from reachable_inv(4)[OF assms] have f: "sig_facts (notified s) (sdCh s) (h_pc s) (sigCnt s)
      (signal_calls s) (stop_requested (zero_closer s)) (sdCh_closed s) (status s)"
    by (simp add: inv_sig_def)
  then have "\<not> exited (status s)" by (simp add: sig_facts_def)
  then have "\<forall>n. status s \<noteq> Exited n" by auto
  moreover from f have "sigCnt s \<le> 2 \<and> h_pc s \<noteq> HExit \<and> signal_calls s \<le> 1"
    by (cases "notified s") (auto simp: sig_facts_def)
  ultimately show ?thesis by simp
qed

text \<open>
  Where \<open>run()\<close> waits for a Closer, a count of zero already implies that the stop was
  requested: the two \<open>SignalAndWait()\<close> calls signal first, and the unit that \<open>run()\<close>
  adds at line 385 is released only by the shutdown goroutine, which starts on the stop
  request. So the results on \<open>run()\<close> do not depend on \<open>Wait()\<close> itself checking for
  the request.
\<close>

lemma waits_in_run_follow_signal:
  assumes "1 + http_units cfg \<le> zero_units cfg" and "exec acts (init cfg) = Some s"
  shows "(s_pc s = SRaftWait \<longrightarrow> stop_requested (node_closer s))
       \<and> (s_pc s = SStoreWait \<longrightarrow> stop_requested (store_closer s))
       \<and> (m_pc s = MWait \<and> running (zero_closer s) = 0 \<longrightarrow> stop_requested (zero_closer s))"
proof -
  from reachable_inv[OF assms(2)] have p: "inv_pc s" and l: "inv_link s"
    and f: "seq_facts (s_pc s) (trace s) (snapshots s) (node_closer s) (store_closer s)"
    by (simp_all add: inv_seq_def)
  from reachable_inv_count[OF assms] have c: "count_facts cfg (running (zero_closer s)) (m_pc s)
      (s_pc s) (g_pc s) (http_tasks s) (kv_closes s)"
    by (simp add: inv_count_def)
  have "m_pc s = MWait \<Longrightarrow> running (zero_closer s) = 0 \<Longrightarrow> s_pc s = SReturned"
    using c p assms(1) by (auto simp: count_facts_def units_held_def inv_pc_def split: if_splits)
  then have "m_pc s = MWait \<and> running (zero_closer s) = 0 \<longrightarrow> stop_requested (zero_closer s)"
    using l by (auto simp: inv_link_def)
  moreover have "s_pc s = SRaftWait \<longrightarrow> stop_requested (node_closer s)"
    "s_pc s = SStoreWait \<longrightarrow> stop_requested (store_closer s)"
    using f by (auto simp: seq_facts_def)
  ultimately show ?thesis by simp
qed

text \<open>
  C2. Three signals, each delivered after the handler has dealt with the one before. The
  handler counts the first, stops the subscription and requests the shutdown once. The
  second and the third are no longer sent to \<open>sdCh\<close>: the counter stays at 1, nothing is
  logged for them, the branch that exits with status 1 is not taken, and the handler waits
  at \<open>range sdCh\<close>.
\<close>

theorem three_signals_run:
  "map_option (\<lambda>s. (sigCnt s, signal_calls s, unrelayed s, status s, h_pc s, sdCh s, log s))
     (exec three_signals (init sysconf0))
   = Some (1, 1, 2, Alive, HRange, [], [Received SIGINT])
   \<and> exec (three_signals @ [Handler]) (init sysconf0) = None"
  by code_simp

end
